theory Spec2Isabelle
  imports Main "HOL-Library.Word"
begin

unbundle bit_operations_syntax

section \<open>Machine types and constants\<close>

text \<open>
  \<open>lib/fork.c\<close> is user-level code of the JOS exokernel on 32-bit x86.  Addresses,
  page-table entries and the counters of its loops are 32-bit words.  Environment
  identifiers (\<open>envid_t\<close>, a signed 32-bit integer) and the \<open>int\<close> results of system
  calls are modelled as \<open>int\<close>: the code only compares them with zero and passes them on.
\<close>

type_synonym envid_t = int
type_synonym pte_t = "32 word"
type_synonym vaddr = "32 word"

text \<open>Line 8 of \<open>lib/fork.c\<close>.\<close>

definition PTE_COW :: pte_t where
  "PTE_COW = 0x800"

text \<open>
  Modelled from the spec: the headers \<open>inc/mmu.h\<close>, \<open>inc/memlayout.h\<close>, \<open>inc/trap.h\<close>,
  \<open>inc/env.h\<close>, \<open>inc/error.h\<close> and \<open>inc/types.h\<close> are not part of the sources at hand.
  The spec calls \<open>PRESENT\<close>, \<open>WRITABLE\<close> and \<open>USER\<close> architecturally defined; on x86 they
  are bits 0, 1 and 2 of an entry, and bit 1 of the page-fault error word says that the
  access was a write.  Pages have 4096 bytes and a page table has 1024 entries (the
  source itself shifts the directory index by 10 bits).  \<open>PFTEMP\<close>, \<open>UTOP\<close> and
  \<open>UXSTACKTOP\<close> are the fixed addresses the spec names; their values are those of the
  JOS memory layout, where the exception stack is the page ending at \<open>UXSTACKTOP = UTOP\<close>.
\<close>

definition PTE_P :: pte_t where
  "PTE_P = 0x001"

definition PTE_W :: pte_t where
  "PTE_W = 0x002"

definition PTE_U :: pte_t where
  "PTE_U = 0x004"

definition PTE_SYSCALL :: pte_t where
  "PTE_SYSCALL = 0xE07"

definition FEC_WR :: "32 word" where
  "FEC_WR = 0x2"

definition PGSIZE :: "32 word" where
  "PGSIZE = 4096"

definition NPTENTRIES :: "32 word" where
  "NPTENTRIES = 1024"

definition UTOP :: vaddr where
  "UTOP = 0xeec00000"

definition UXSTACKTOP :: vaddr where
  "UXSTACKTOP = UTOP"

definition PFTEMP :: vaddr where
  "PFTEMP = 0x007ff000"

definition PGNUM :: "vaddr \<Rightarrow> 32 word" where
  "PGNUM la = drop_bit 12 la"

definition PDX :: "vaddr \<Rightarrow> 32 word" where
  "PDX la = drop_bit 22 la AND 0x3FF"

definition ROUNDDOWN :: "32 word \<Rightarrow> 32 word \<Rightarrow> 32 word" where
  "ROUNDDOWN a n = a - a mod n"

text \<open>\<open>ENVX\<close> keeps the low ten bits of an identifier: the index into \<open>envs\<close>.\<close>

definition ENVX :: "envid_t \<Rightarrow> 10 word" where
  "ENVX envid = word_of_int envid"

definition E_BAD_ENV :: int where
  "E_BAD_ENV = 2"

definition E_INVAL :: int where
  "E_INVAL = 3"

definition E_NO_MEM :: int where
  "E_NO_MEM = 4"

definition E_NO_FREE_ENV :: int where
  "E_NO_FREE_ENV = 5"

section \<open>The machine state\<close>

text \<open>
  A page-table entry is a word: the physical frame number in its upper twenty bits, the
  permission bits below.  The kernel always sets \<open>PTE_P\<close> in an entry it installs.
\<close>

definition mk_pte :: "20 word \<Rightarrow> pte_t \<Rightarrow> pte_t" where
  "mk_pte f perm = push_bit 12 (ucast f) OR perm OR PTE_P"

definition PTE_ADDR :: "pte_t \<Rightarrow> 20 word" where
  "PTE_ADDR pte = ucast (drop_bit 12 pte)"

definition PTE_FLAGS :: "pte_t \<Rightarrow> pte_t" where
  "PTE_FLAGS pte = take_bit 12 pte"

datatype env_status = ENV_FREE | ENV_DYING | ENV_RUNNABLE | ENV_RUNNING | ENV_NOT_RUNNABLE

datatype handler = Handler_pgfault

text \<open>
  One entry of the environment table \<open>envs\<close>.  \<open>env_pgdir\<close> and \<open>env_pgtab\<close> are the
  environment's page directory and page tables, laid out as the two arrays \<open>uvpd\<close> and
  \<open>uvpt\<close> show them to user code: indexed by directory index and by page number.  The
  last three fields are not kernel data: they are the globals \<open>thisenv\<close> (a pointer into
  \<open>envs\<close>, kept as the index it points at), \<open>_pgfault_handler\<close> and the address of the
  assembly trampoline \<open>_pgfault_upcall\<close> in the environment's own program image.
\<close>

record env =
  env_id :: envid_t
  env_status :: env_status
  env_pgfault_upcall :: vaddr
  env_pgdir :: "32 word \<Rightarrow> pte_t"
  env_pgtab :: "32 word \<Rightarrow> pte_t"
  u_thisenv :: "10 word"
  u_pgfault_handler :: "handler option"
  u_pgfault_upcall :: vaddr

datatype syscall =
    SYS_page_alloc envid_t vaddr pte_t
  | SYS_page_map envid_t vaddr envid_t vaddr pte_t
  | SYS_page_unmap envid_t vaddr
  | SYS_exofork
  | SYS_env_set_status envid_t env_status
  | SYS_env_set_pgfault_upcall envid_t vaddr

text \<open>
  The state of the machine: the environment table, the running environment, physical
  memory by frame number, the kernel's free lists, and a log of the system calls made so
  far, each with the value it returned (oldest first).
\<close>

record kstate =
  envs :: "10 word \<Rightarrow> env"
  curenv :: "10 word"
  phys :: "20 word \<Rightarrow> 12 word \<Rightarrow> 8 word"
  page_free_list :: "20 word list"
  env_free_list :: "10 word list"
  syslog :: "(syscall \<times> int) list"

section \<open>The self-view of the page tables\<close>

text \<open>
  The entry the hardware uses for page \<open>pn\<close>: none under a directory entry that is not
  present.
\<close>

definition pgdir_walk :: "env \<Rightarrow> 32 word \<Rightarrow> pte_t" where
  "pgdir_walk e pn =
     (if env_pgdir e (drop_bit 10 pn) AND PTE_P = 0 then 0 else env_pgtab e pn)"

text \<open>
  \<open>uvpd[i]\<close> and \<open>uvpt[pn]\<close> of the running environment.  Reading \<open>uvpt[pn]\<close> under a
  directory entry that is not present traps on the hardware; the nested fault is a read,
  which the handler below rejects at its guard, so the read is modelled as yielding the
  empty entry, which the guard rejects as well.
\<close>

definition uvpd :: "kstate \<Rightarrow> 32 word \<Rightarrow> pte_t" where
  "uvpd s i = env_pgdir (envs s (curenv s)) i"

definition uvpt :: "kstate \<Rightarrow> 32 word \<Rightarrow> pte_t" where
  "uvpt s pn = pgdir_walk (envs s (curenv s)) pn"

section \<open>Kernel primitives\<close>

text \<open>
  Modelled from the spec: the kernel (\<open>kern/syscall.c\<close>, \<open>kern/env.c\<close>, \<open>kern/pmap.c\<close>)
  and the system-call stubs (\<open>lib/syscall.c\<close>) are not part of the sources at hand.  Each
  primitive follows its contract in the spec's table of kernel primitives; a primitive
  that refuses returns a negative error code and leaves everything but the log as it
  was.  The refusals modelled are: an identifier that names no environment, a permission
  word outside the bits a system call may set or without \<open>PTE_U | PTE_P\<close>, no free
  frame, no free environment, a source page that is not mapped, and a status other than
  runnable or not runnable.  The kernel does not look at \<open>PTE_COW\<close>: that
  \<open>WRITABLE\<close> and \<open>COW\<close> never come together is an obligation of the caller.
\<close>

definition sysret :: "syscall \<Rightarrow> int \<Rightarrow> kstate \<Rightarrow> int \<times> kstate" where
  "sysret c r s = (r, s\<lparr>syslog := syslog s @ [(c, r)]\<rparr>)"

definition envid2env :: "kstate \<Rightarrow> envid_t \<Rightarrow> 10 word option" where
  "envid2env s envid =
     (let e = envs s (ENVX envid)
      in if env_status e = ENV_FREE \<or> env_id e \<noteq> envid then None else Some (ENVX envid))"

definition perm_ok :: "pte_t \<Rightarrow> bool" where
  "perm_ok perm \<longleftrightarrow>
     perm AND (PTE_U OR PTE_P) = (PTE_U OR PTE_P) \<and> perm AND NOT PTE_SYSCALL = 0"

definition page_insert :: "env \<Rightarrow> 32 word \<Rightarrow> pte_t \<Rightarrow> env" where
  "page_insert e pn pte =
     (if env_pgdir e (drop_bit 10 pn) AND PTE_P = 0
      then e\<lparr>env_pgdir := (env_pgdir e)(drop_bit 10 pn := PTE_P OR PTE_W OR PTE_U),
             env_pgtab := (\<lambda>q. if drop_bit 10 q = drop_bit 10 pn then 0 else env_pgtab e q)
                            (pn := pte)\<rparr>
      else e\<lparr>env_pgtab := (env_pgtab e)(pn := pte)\<rparr>)"

definition page_remove :: "env \<Rightarrow> 32 word \<Rightarrow> env" where
  "page_remove e pn =
     (if env_pgdir e (drop_bit 10 pn) AND PTE_P = 0 then e
      else e\<lparr>env_pgtab := (env_pgtab e)(pn := 0)\<rparr>)"

definition sys_getenvid :: "kstate \<Rightarrow> envid_t" where
  "sys_getenvid s = env_id (envs s (curenv s))"

definition sys_page_alloc :: "envid_t \<Rightarrow> vaddr \<Rightarrow> pte_t \<Rightarrow> kstate \<Rightarrow> int \<times> kstate" where
  "sys_page_alloc envid va perm s =
     (case envid2env s envid of
        None \<Rightarrow> sysret (SYS_page_alloc envid va perm) (- E_BAD_ENV) s
      | Some e \<Rightarrow>
          if \<not> perm_ok perm then sysret (SYS_page_alloc envid va perm) (- E_INVAL) s
          else (case page_free_list s of
              [] \<Rightarrow> sysret (SYS_page_alloc envid va perm) (- E_NO_MEM) s
            | f # fs \<Rightarrow>
                sysret (SYS_page_alloc envid va perm) 0
                  (s\<lparr>envs := (envs s)(e := page_insert (envs s e) (PGNUM va) (mk_pte f perm)),
                     phys := (phys s)(f := (\<lambda>_. 0)),
                     page_free_list := fs\<rparr>)))"

definition sys_page_map ::
  "envid_t \<Rightarrow> vaddr \<Rightarrow> envid_t \<Rightarrow> vaddr \<Rightarrow> pte_t \<Rightarrow> kstate \<Rightarrow> int \<times> kstate" where
  "sys_page_map srcenvid srcva dstenvid dstva perm s =
     (case envid2env s srcenvid of
        None \<Rightarrow> sysret (SYS_page_map srcenvid srcva dstenvid dstva perm) (- E_BAD_ENV) s
      | Some se \<Rightarrow>
          (case envid2env s dstenvid of
             None \<Rightarrow> sysret (SYS_page_map srcenvid srcva dstenvid dstva perm) (- E_BAD_ENV) s
           | Some de \<Rightarrow>
               let pte = pgdir_walk (envs s se) (PGNUM srcva)
               in if \<not> perm_ok perm \<or> pte AND PTE_P = 0
                  then sysret (SYS_page_map srcenvid srcva dstenvid dstva perm) (- E_INVAL) s
                  else sysret (SYS_page_map srcenvid srcva dstenvid dstva perm) 0
                         (s\<lparr>envs := (envs s)
                              (de := page_insert (envs s de) (PGNUM dstva)
                                       (mk_pte (PTE_ADDR pte) perm))\<rparr>)))"

definition sys_page_unmap :: "envid_t \<Rightarrow> vaddr \<Rightarrow> kstate \<Rightarrow> int \<times> kstate" where
  "sys_page_unmap envid va s =
     (case envid2env s envid of
        None \<Rightarrow> sysret (SYS_page_unmap envid va) (- E_BAD_ENV) s
      | Some e \<Rightarrow>
          sysret (SYS_page_unmap envid va) 0
            (s\<lparr>envs := (envs s)(e := page_remove (envs s e) (PGNUM va))\<rparr>))"

definition sys_env_set_pgfault_upcall :: "envid_t \<Rightarrow> vaddr \<Rightarrow> kstate \<Rightarrow> int \<times> kstate" where
  "sys_env_set_pgfault_upcall envid func s =
     (case envid2env s envid of
        None \<Rightarrow> sysret (SYS_env_set_pgfault_upcall envid func) (- E_BAD_ENV) s
      | Some e \<Rightarrow>
          sysret (SYS_env_set_pgfault_upcall envid func) 0
            (s\<lparr>envs := (envs s)(e := (envs s e)\<lparr>env_pgfault_upcall := func\<rparr>)\<rparr>))"

definition sys_env_set_status :: "envid_t \<Rightarrow> env_status \<Rightarrow> kstate \<Rightarrow> int \<times> kstate" where
  "sys_env_set_status envid status s =
     (if status \<noteq> ENV_RUNNABLE \<and> status \<noteq> ENV_NOT_RUNNABLE
      then sysret (SYS_env_set_status envid status) (- E_INVAL) s
      else (case envid2env s envid of
          None \<Rightarrow> sysret (SYS_env_set_status envid status) (- E_BAD_ENV) s
        | Some e \<Rightarrow>
            sysret (SYS_env_set_status envid status) 0
              (s\<lparr>envs := (envs s)(e := (envs s e)\<lparr>env_status := status\<rparr>)\<rparr>)))"

text \<open>
  The identifier of a new environment in slot \<open>i\<close>: a positive generation number above
  the slot index, so that it is never zero or negative and \<open>ENVX\<close> recovers the slot.
\<close>

definition new_envid :: "envid_t \<Rightarrow> 10 word \<Rightarrow> envid_t" where
  "new_envid old i =
     (let generation = (old + 4096) div 1024 * 1024
      in (if generation \<le> 0 then 4096 else generation) + uint i)"

text \<open>
  \<open>exo_fork\<close> as the parent sees it: a blank child that is not runnable and has no
  mappings.  The child's program image is the parent's (the duplication walk shares it),
  so the child starts from the parent's values of the three globals.
\<close>

definition sys_exofork :: "kstate \<Rightarrow> int \<times> kstate" where
  "sys_exofork s =
     (case env_free_list s of
        [] \<Rightarrow> sysret SYS_exofork (- E_NO_FREE_ENV) s
      | i # rest \<Rightarrow>
          let parent = envs s (curenv s);
              id = new_envid (env_id (envs s i)) i;
              child = \<lparr>env_id = id, env_status = ENV_NOT_RUNNABLE, env_pgfault_upcall = 0,
                       env_pgdir = (\<lambda>_. 0), env_pgtab = (\<lambda>_. 0),
                       u_thisenv = u_thisenv parent,
                       u_pgfault_handler = u_pgfault_handler parent,
                       u_pgfault_upcall = u_pgfault_upcall parent\<rparr>
          in sysret SYS_exofork id (s\<lparr>envs := (envs s)(i := child), env_free_list := rest\<rparr>))"

section \<open>Results of user code\<close>

text \<open>
  \<open>panic\<close> prints its message and destroys the environment: it does not return.  A run of
  user code ends in \<open>Inl\<close> with the reason and the state reached when it stopped, or in
  \<open>Inr\<close> with the value returned and the state.
\<close>

datatype error = Panic string | Fault vaddr

type_synonym 'a result = "(error \<times> kstate) + ('a \<times> kstate)"

definition panic :: "string \<Rightarrow> kstate \<Rightarrow> 'a result" where
  "panic msg s = Inl (Panic msg, s)"

text \<open>
  Modelled from the spec: \<open>memmove\<close> (\<open>lib/string.c\<close>) is not part of the sources at hand.
  Its only call copies \<open>PGSIZE\<close> bytes between two page-aligned addresses (step 5 of the
  handler in the spec: copy \<open>PAGESIZE\<close> bytes from the faulting page to the scratch
  page), so it is modelled for whole pages: the bytes of the frame behind \<open>src\<close> replace
  those of the frame behind \<open>dst\<close>.  A source that user code cannot read or a
  destination it cannot write is an access fault.
\<close>

definition memmove_page :: "vaddr \<Rightarrow> vaddr \<Rightarrow> kstate \<Rightarrow> unit result" where
  "memmove_page dst src s =
     (let pd = uvpt s (PGNUM dst); ps = uvpt s (PGNUM src)
      in if ps AND PTE_P = 0 \<or> ps AND PTE_U = 0 then Inl (Fault src, s)
         else if pd AND PTE_P = 0 \<or> pd AND PTE_U = 0 \<or> pd AND PTE_W = 0 then Inl (Fault dst, s)
         else Inr ((), s\<lparr>phys := (phys s)(PTE_ADDR pd := phys s (PTE_ADDR ps))\<rparr>))"

section \<open>The copy-on-write fault handler\<close>

text \<open>
  \<open>struct UTrapframe\<close>: the handler reads the faulting address and the error word only.
\<close>

record UTrapframe =
  utf_fault_va :: vaddr
  utf_err :: "32 word"

text \<open>\<open>pgfault\<close>, lines 14 to 50 of \<open>lib/fork.c\<close>.\<close>

definition pgfault :: "UTrapframe \<Rightarrow> kstate \<Rightarrow> unit result" where
  "pgfault utf s =
     (let addr = utf_fault_va utf;
          err = utf_err utf;
          envid = sys_getenvid s;
          pte = uvpt s (PGNUM addr)
      in if err AND FEC_WR = 0 \<or> pte AND PTE_COW = 0
         then panic ''pgfault: Not a write error or address is not on a COW page'' s
         else (case sys_page_alloc envid PFTEMP (PTE_P OR PTE_W OR PTE_U) s of (r1, s1) \<Rightarrow>
           if r1 < 0 then panic ''pgfault: Cannot allocate a new page at PFTEMP'' s1
           else
             let addr = ROUNDDOWN addr PGSIZE
             in (case memmove_page PFTEMP addr s1 of
                  Inl e \<Rightarrow> Inl e
                | Inr (u, s2) \<Rightarrow>
                    (case sys_page_unmap envid addr s2 of (r3, s3) \<Rightarrow>
                      if r3 < 0
                      then panic ''pgfault: Cannot unmap old page from addr 0x%08x'' s3
                      else (case sys_page_map envid PFTEMP envid addr
                                   (PTE_P OR PTE_W OR PTE_U) s3 of (r4, s4) \<Rightarrow>
                        if r4 < 0 then panic ''pgfault: Cannot map page to PFTEMP'' s4
                        else Inr ((), s4))))))"

section \<open>The page duplicator\<close>

text \<open>\<open>duppage\<close>, lines 63 to 80 of \<open>lib/fork.c\<close>.\<close>

definition duppage :: "envid_t \<Rightarrow> 32 word \<Rightarrow> kstate \<Rightarrow> int result" where
  "duppage envid pn s =
     (let pte = uvpt s pn;
          cow = (if pte AND PTE_COW \<noteq> 0 \<or> pte AND PTE_W \<noteq> 0 then PTE_COW else 0);
          addr = pn * PGSIZE;
          thisenvid = sys_getenvid s
      in (case sys_page_map thisenvid addr envid addr (PTE_P OR PTE_U OR cow) s of (r1, s1) \<Rightarrow>
           if r1 < 0 then panic ''duppage: Cannot map page into target environment'' s1
           else if cow \<noteq> 0
             then (case sys_page_map thisenvid addr thisenvid addr
                          (PTE_P OR PTE_U OR PTE_COW) s1 of (r2, s2) \<Rightarrow>
                    if r2 < 0 then panic ''duppage: Cannot remap page as COW'' s2
                    else Inr (0, s2))
             else Inr (0, s1)))"

section \<open>The fork driver\<close>

text \<open>
  Modelled from the spec: \<open>set_pgfault_handler\<close> (\<open>lib/pgfault.c\<close>) is not part of the
  sources at hand.  It registers the handler as the running environment's page-fault
  callback, idempotent if one is already set; the first registration allocates the
  environment's own exception stack and installs the trampoline as its upcall.
\<close>

definition set_pgfault_handler :: "handler \<Rightarrow> kstate \<Rightarrow> unit result" where
  "set_pgfault_handler h s =
     (let me = envs s (curenv s)
      in (case u_pgfault_handler me of
            Some h0 \<Rightarrow>
              Inr ((), s\<lparr>envs := (envs s)(curenv s := me\<lparr>u_pgfault_handler := Some h\<rparr>)\<rparr>)
          | None \<Rightarrow>
              (case sys_page_alloc (sys_getenvid s) (UXSTACKTOP - PGSIZE)
                      (PTE_P OR PTE_W OR PTE_U) s of (r1, s1) \<Rightarrow>
                if r1 < 0 then panic ''set_pgfault_handler: cannot allocate exception stack'' s1
                else (case sys_env_set_pgfault_upcall (sys_getenvid s1)
                             (u_pgfault_upcall me) s1 of (r2, s2) \<Rightarrow>
                  if r2 < 0 then panic ''set_pgfault_handler: cannot set upcall'' s2
                  else Inr ((), s2\<lparr>envs := (envs s2)
                         (curenv s2 := (envs s2 (curenv s2))\<lparr>u_pgfault_handler := Some h\<rparr>)\<rparr>)))))"

text \<open>
  The inner loop of \<open>fork\<close> (lines 119 to 127), from index \<open>j\<close> on, for the directory
  entry \<open>i\<close>.  The value \<open>duppage\<close> returns is dropped, as in the source.
\<close>

function fork_pte_loop :: "envid_t \<Rightarrow> 32 word \<Rightarrow> 32 word \<Rightarrow> kstate \<Rightarrow> unit result" where
  "fork_pte_loop envid i j s =
     (if j < NPTENTRIES
      then if push_bit 10 i OR j = PGNUM (UXSTACKTOP - PGSIZE)
           then fork_pte_loop envid i (j + 1) s
           else if uvpt s (push_bit 10 i OR j) AND PTE_P \<noteq> 0
             then (case duppage envid (push_bit 10 i OR j) s of
                     Inl e \<Rightarrow> Inl e
                   | Inr (r, s') \<Rightarrow> fork_pte_loop envid i (j + 1) s')
             else fork_pte_loop envid i (j + 1) s
      else Inr ((), s))"
  by pat_completeness auto
termination
proof (relation "measure (\<lambda>(envid, i, j, s). unat NPTENTRIES - unat j)")
  show "wf (measure (\<lambda>(envid, i, j, s). unat NPTENTRIES - unat j))"
    by simp
next
  fix envid :: envid_t and i j :: "32 word" and s :: kstate
  assume "j < NPTENTRIES"
  then have "unat j < 1024"
    by (simp add: NPTENTRIES_def word_less_nat_alt)
  then have "unat (j + 1) = unat j + 1"
    by (simp add: unat_word_ariths)
  with \<open>unat j < 1024\<close>
  have "unat NPTENTRIES - unat (j + 1) < unat NPTENTRIES - unat j"
    by (simp add: NPTENTRIES_def)
  then show "((envid, i, j + 1, s), envid, i, j, s)
      \<in> measure (\<lambda>(envid, i, j, s). unat NPTENTRIES - unat j)"
    by simp
  then show "((envid, i, j + 1, s), envid, i, j, s)
      \<in> measure (\<lambda>(envid, i, j, s). unat NPTENTRIES - unat j)" .
  fix s' :: kstate
  from \<open>unat NPTENTRIES - unat (j + 1) < unat NPTENTRIES - unat j\<close>
  show "((envid, i, j + 1, s'), envid, i, j, s)
      \<in> measure (\<lambda>(envid, i, j, s). unat NPTENTRIES - unat j)"
    by simp
qed

declare fork_pte_loop.simps [simp del]

text \<open>The outer loop of \<open>fork\<close> (lines 115 to 128), from directory index \<open>i\<close> on.\<close>

function fork_pde_loop :: "envid_t \<Rightarrow> 32 word \<Rightarrow> kstate \<Rightarrow> unit result" where
  "fork_pde_loop envid i s =
     (if i < PDX UTOP
      then if uvpd s i AND PTE_P = 0
           then fork_pde_loop envid (i + 1) s
           else (case fork_pte_loop envid i 0 s of
                   Inl e \<Rightarrow> Inl e
                 | Inr (u, s') \<Rightarrow> fork_pde_loop envid (i + 1) s')
      else Inr ((), s))"
  by pat_completeness auto
termination
proof (relation "measure (\<lambda>(envid, i, s). unat (PDX UTOP) - unat i)")
  show "wf (measure (\<lambda>(envid, i, s). unat (PDX UTOP) - unat i))"
    by simp
next
  fix envid :: envid_t and i :: "32 word" and s :: kstate
  assume "i < PDX UTOP"
  then have b: "unat i < 955"
    by (simp add: PDX_def UTOP_def word_less_nat_alt)
  then have "unat (i + 1) = unat i + 1"
    by (simp add: unat_word_ariths)
  with b have d: "unat (PDX UTOP) - unat (i + 1) < unat (PDX UTOP) - unat i"
    by (simp add: PDX_def UTOP_def)
  then show "((envid, i + 1, s), envid, i, s)
      \<in> measure (\<lambda>(envid, i, s). unat (PDX UTOP) - unat i)"
    by simp
  fix s' :: kstate
  from d show "((envid, i + 1, s'), envid, i, s)
      \<in> measure (\<lambda>(envid, i, s). unat (PDX UTOP) - unat i)"
    by simp
qed

declare fork_pde_loop.simps [simp del]

text \<open>
  \<open>sys_exofork\<close> returns twice: in the parent with the child's identifier (or an error),
  and in the child, once it runs, with zero.  \<open>fork_resume envid\<close> is \<open>fork\<close> from the
  point where \<open>sys_exofork\<close> has returned \<open>envid\<close> (lines 107 to 139), run by the
  environment that is current in the state it is given.
\<close>

definition fork_resume :: "envid_t \<Rightarrow> kstate \<Rightarrow> envid_t result" where
  "fork_resume envid s =
     (if envid < 0 then panic ''fork: Cannot create a child environment'' s
      else if envid = 0
        then Inr (0, s\<lparr>envs := (envs s)
               (curenv s := (envs s (curenv s))\<lparr>u_thisenv := ENVX (sys_getenvid s)\<rparr>)\<rparr>)
        else (case fork_pde_loop envid 0 s of
            Inl e \<Rightarrow> Inl e
          | Inr (u, s1) \<Rightarrow>
              (case sys_page_alloc envid (UXSTACKTOP - PGSIZE)
                      (PTE_P OR PTE_W OR PTE_U) s1 of (r2, s2) \<Rightarrow>
                if r2 < 0 then panic ''fork: Cannot allocate child exception stack'' s2
                else (case sys_env_set_pgfault_upcall envid
                             (env_pgfault_upcall (envs s2 (u_thisenv (envs s2 (curenv s2)))))
                             s2 of (r3, s3) \<Rightarrow>
                  if r3 < 0
                  then panic ''fork: Cannot set pgfault_upcall for child environment'' s3
                  else (case sys_env_set_status envid ENV_RUNNABLE s3 of (r4, s4) \<Rightarrow>
                    if r4 < 0 then panic ''fork: Cannot change child running status'' s4
                    else Inr (envid, s4))))))"

text \<open>\<open>fork\<close>, lines 98 to 140 of \<open>lib/fork.c\<close>, as the calling environment runs it.\<close>

definition fork :: "kstate \<Rightarrow> envid_t result" where
  "fork s =
     (let thisenvid = sys_getenvid s
      in (case set_pgfault_handler Handler_pgfault s of
            Inl e \<Rightarrow> Inl e
          | Inr (u, s1) \<Rightarrow> (case sys_exofork s1 of (envid, s2) \<Rightarrow> fork_resume envid s2)))"

section \<open>When the kernel can serve the handler\<close>

text \<open>
  The conditions on a state under which no primitive the handler calls refuses and its
  copy does not fault: the running environment is a live entry of \<open>envs\<close> under its own
  identifier, a frame is free, user code can read the faulting page, and the faulting
  page is not the scratch page itself.
\<close>

definition kernel_can_copy :: "kstate \<Rightarrow> vaddr \<Rightarrow> bool" where
  "kernel_can_copy s va \<longleftrightarrow>
     envid2env s (sys_getenvid s) = Some (curenv s) \<and> page_free_list s \<noteq> [] \<and>
     uvpt s (PGNUM va) AND PTE_P \<noteq> 0 \<and> uvpt s (PGNUM va) AND PTE_U \<noteq> 0 \<and>
     PGNUM va \<noteq> PGNUM PFTEMP"

section \<open>A concrete machine\<close>

text \<open>
  A small machine on which the properties below are exercised: one running environment
  (identifier \<open>0x1000\<close>, slot 0) with a read-only page at \<open>0x800000\<close>, a writable page at
  \<open>0x801000\<close>, a copy-on-write page at \<open>0x802000\<close> and its exception stack below
  \<open>UXSTACKTOP\<close>; three free frames and two free environment slots.
\<close>

definition blank_env :: env where
  "blank_env = \<lparr>env_id = 0, env_status = ENV_FREE, env_pgfault_upcall = 0,
      env_pgdir = (\<lambda>_. 0), env_pgtab = (\<lambda>_. 0), u_thisenv = 0,
      u_pgfault_handler = None, u_pgfault_upcall = 0\<rparr>"

definition demo_parent :: env where
  "demo_parent = \<lparr>env_id = 0x1000, env_status = ENV_RUNNING, env_pgfault_upcall = 0x800100,
      env_pgdir = (\<lambda>_. 0)(2 := 7, 0x3BA := 7),
      env_pgtab = (\<lambda>_. 0)(0x800 := 0x3005, 0x801 := 0x4007, 0x802 := 0x5805, 0xEEBFF := 0x6007),
      u_thisenv = 0, u_pgfault_handler = Some Handler_pgfault, u_pgfault_upcall = 0x800100\<rparr>"

definition demo_state :: kstate where
  "demo_state = \<lparr>envs = (\<lambda>_. blank_env)(0 := demo_parent), curenv = 0,
      phys = (\<lambda>_ _. 0)(5 := (\<lambda>_. 0x2A)),
      page_free_list = [7, 8, 9], env_free_list = [1, 2], syslog = []\<rparr>"

definition demo_utf :: UTrapframe where
  "demo_utf = \<lparr>utf_fault_va = 0x802abc, utf_err = 7\<rparr>"

definition demo_utf_read :: UTrapframe where
  "demo_utf_read = \<lparr>utf_fault_va = 0x802abc, utf_err = 5\<rparr>"

text \<open>
  The machine after \<open>sys_exofork\<close>: a blank child (identifier \<open>0x1001\<close>, slot 1) that is
  not runnable.
\<close>

definition demo_child :: env where
  "demo_child = \<lparr>env_id = 0x1001, env_status = ENV_NOT_RUNNABLE, env_pgfault_upcall = 0,
      env_pgdir = (\<lambda>_. 0), env_pgtab = (\<lambda>_. 0), u_thisenv = 0,
      u_pgfault_handler = Some Handler_pgfault, u_pgfault_upcall = 0x800100\<rparr>"

definition demo_forked :: kstate where
  "demo_forked = \<lparr>envs = (\<lambda>_. blank_env)(0 := demo_parent, 1 := demo_child), curenv = 0,
      phys = (\<lambda>_ _. 0)(5 := (\<lambda>_. 0x2A)),
      page_free_list = [7, 8, 9], env_free_list = [2], syslog = [(SYS_exofork, 0x1001)]\<rparr>"

section \<open>The duplication walk, in the spec's words\<close>

text \<open>
  \<open>dup_pages child pns\<close> invokes the duplicator on the page numbers \<open>pns\<close>, one after
  the other, and stops at the first panic.
\<close>

fun dup_pages :: "envid_t \<Rightarrow> 32 word list \<Rightarrow> kstate \<Rightarrow> unit result" where
  "dup_pages envid [] s = Inr ((), s)"
| "dup_pages envid (pn # pns) s =
     (case duppage envid pn s of
        Inl e \<Rightarrow> Inl e
      | Inr (r, s') \<Rightarrow> dup_pages envid pns s')"

text \<open>
  The spec's walk: every page-directory entry below the user boundary, skipping the
  entries lacking \<open>PRESENT\<close>; under each present one its 1024 page-table entries, taking
  every present one whose page number is not that of the exception stack.
\<close>

definition pte_pages :: "kstate \<Rightarrow> 32 word \<Rightarrow> 32 word list" where
  "pte_pages s i =
     filter (\<lambda>pn. pn \<noteq> PGNUM (UXSTACKTOP - PGSIZE) \<and> uvpt s pn AND PTE_P \<noteq> 0)
       (map (\<lambda>j. push_bit 10 i OR of_nat j) [0..<unat NPTENTRIES])"

definition fork_pages :: "kstate \<Rightarrow> 32 word list" where
  "fork_pages s =
     concat (map (pte_pages s)
       (filter (\<lambda>i. uvpd s i AND PTE_P \<noteq> 0) (map of_nat [0..<unat (PDX UTOP)])))"

section \<open>Runs and their system calls\<close>

text \<open>The state a run of user code ends in, whether it returned or panicked.\<close>

definition final :: "'a result \<Rightarrow> kstate" where
  "final res = (case res of Inl (e, s) \<Rightarrow> s | Inr (v, s) \<Rightarrow> s)"

text \<open>
  A call of a mapping primitive whose permission word does not hold \<open>PTE_W\<close> and
  \<open>PTE_COW\<close> together; calls that take no permission word qualify.
\<close>

fun excl_perm :: "syscall \<Rightarrow> bool" where
  "excl_perm (SYS_page_alloc envid va perm) = (perm AND PTE_W = 0 \<or> perm AND PTE_COW = 0)"
| "excl_perm (SYS_page_map srcenvid srcva dstenvid dstva perm) =
     (perm AND PTE_W = 0 \<or> perm AND PTE_COW = 0)"
| "excl_perm (SYS_page_unmap envid va) = True"
| "excl_perm SYS_exofork = True"
| "excl_perm (SYS_env_set_status envid status) = True"
| "excl_perm (SYS_env_set_pgfault_upcall envid func) = True"

fun is_page_map :: "syscall \<Rightarrow> bool" where
  "is_page_map (SYS_page_map srcenvid srcva dstenvid dstva perm) = True"
| "is_page_map (SYS_page_alloc envid va perm) = False"
| "is_page_map (SYS_page_unmap envid va) = False"
| "is_page_map SYS_exofork = False"
| "is_page_map (SYS_env_set_status envid status) = False"
| "is_page_map (SYS_env_set_pgfault_upcall envid func) = False"

text \<open>
  \<open>calls_since s s'\<close>: the entries the log of \<open>s'\<close> has beyond the log of \<open>s\<close>.
\<close>

definition calls_since :: "kstate \<Rightarrow> kstate \<Rightarrow> (syscall \<times> int) list" where
  "calls_since s s' = drop (length (syslog s)) (syslog s')"

text \<open>
  Between \<open>s\<close> and \<open>s'\<close> only page tables and the log have changed, and the log has grown
  by calls of \<open>sys_page_map\<close> with exclusive permission words.
\<close>

definition walk_step :: "kstate \<Rightarrow> kstate \<Rightarrow> bool" where
  "walk_step s s' \<longleftrightarrow>
     curenv s' = curenv s \<and> phys s' = phys s \<and> page_free_list s' = page_free_list s \<and>
     env_free_list s' = env_free_list s \<and>
     (\<forall>x. env_id (envs s' x) = env_id (envs s x) \<and>
          env_status (envs s' x) = env_status (envs s x) \<and>
          env_pgfault_upcall (envs s' x) = env_pgfault_upcall (envs s x) \<and>
          u_thisenv (envs s' x) = u_thisenv (envs s x) \<and>
          u_pgfault_handler (envs s' x) = u_pgfault_handler (envs s x) \<and>
          u_pgfault_upcall (envs s' x) = u_pgfault_upcall (envs s x)) \<and>
     take (length (syslog s)) (syslog s') = syslog s \<and>
     list_all (\<lambda>ev. is_page_map (fst ev) \<and> excl_perm (fst ev)) (calls_since s s')"

text \<open>
  No mapping of any environment holds \<open>PTE_W\<close> and \<open>PTE_COW\<close> together.
\<close>

definition cow_excl_state :: "kstate \<Rightarrow> bool" where
  "cow_excl_state s \<longleftrightarrow>
     (\<forall>x pn. pgdir_walk (envs s x) pn AND PTE_W = 0 \<or> pgdir_walk (envs s x) pn AND PTE_COW = 0)"

text \<open>
  From \<open>s\<close> to \<open>s'\<close> the log has grown, by calls whose permission words are exclusive,
  and if no mapping of \<open>s\<close> held \<open>PTE_W\<close> and \<open>PTE_COW\<close> together, none of \<open>s'\<close> does.
\<close>

definition excl_step :: "kstate \<Rightarrow> kstate \<Rightarrow> bool" where
  "excl_step s s' \<longleftrightarrow>
     take (length (syslog s)) (syslog s') = syslog s \<and>
     list_all (\<lambda>ev. excl_perm (fst ev)) (calls_since s s') \<and>
     (cow_excl_state s \<longrightarrow> cow_excl_state s')"

text \<open>
  The three calls with which the parent finishes a child \<open>c\<close>: the allocation of its
  exception stack, the installation of the upcall that the parent's own entry of \<open>envs\<close>
  holds in state \<open>s\<close>, and the transition to runnable.
\<close>

definition stack_alloc_call :: "envid_t \<Rightarrow> syscall" where
  "stack_alloc_call c = SYS_page_alloc c (UXSTACKTOP - PGSIZE) (PTE_P OR PTE_W OR PTE_U)"

definition upcall_call :: "envid_t \<Rightarrow> kstate \<Rightarrow> syscall" where
  "upcall_call c s =
     SYS_env_set_pgfault_upcall c (env_pgfault_upcall (envs s (u_thisenv (envs s (curenv s)))))"

definition runnable_call :: "envid_t \<Rightarrow> syscall" where
  "runnable_call c = SYS_env_set_status c ENV_RUNNABLE"

text \<open>
  The first machine with no free entry in \<open>envs\<close>, and the second one at the moment the
  child runs for the first time (its \<open>thisenv\<close> still the parent's).
\<close>

definition demo_full :: kstate where
  "demo_full = \<lparr>envs = (\<lambda>_. blank_env)(0 := demo_parent), curenv = 0,
      phys = (\<lambda>_ _. 0)(5 := (\<lambda>_. 0x2A)),
      page_free_list = [7, 8, 9], env_free_list = [], syslog = []\<rparr>"

definition demo_child_runs :: kstate where
  "demo_child_runs = \<lparr>envs = (\<lambda>_. blank_env)(0 := demo_parent, 1 := demo_child), curenv = 1,
      phys = (\<lambda>_ _. 0)(5 := (\<lambda>_. 0x2A)),
      page_free_list = [7, 8, 9], env_free_list = [2], syslog = [(SYS_exofork, 0x1001)]\<rparr>"

section \<open>Runs that stop at the first refusal\<close>

text \<open>A run that ended in a panic, as opposed to an access fault.\<close>

fun is_panic :: "error \<Rightarrow> bool" where
  "is_panic (Panic msg) = True"
| "is_panic (Fault va) = False"

text \<open>
  \<open>panics_at_refusal s res\<close>: the run \<open>res\<close>, started in \<open>s\<close>, has only added to the log;
  if it returned, none of the system calls it made was refused (none returned a negative
  value); if it did not return, it ended in a panic, the last call it made was refused,
  and no call before that one was.
\<close>

definition panics_at_refusal :: "kstate \<Rightarrow> 'a result \<Rightarrow> bool" where
  "panics_at_refusal s res \<longleftrightarrow>
     take (length (syslog s)) (syslog (final res)) = syslog s \<and>
     (case res of
        Inr (v, s') \<Rightarrow> list_all (\<lambda>ev. 0 \<le> snd ev) (calls_since s s')
      | Inl (e, s') \<Rightarrow>
          is_panic e \<and> calls_since s s' \<noteq> [] \<and> snd (last (calls_since s s')) < 0 \<and>
          list_all (\<lambda>ev. 0 \<le> snd ev) (butlast (calls_since s s')))"

section \<open>The address space of a child\<close>

text \<open>
  The entry \<open>duppage\<close> gives the child for a page whose entry in the parent is \<open>pte\<close>:
  the parent's frame, copy-on-write if the parent could write the page or had it
  copy-on-write, read-only otherwise.
\<close>

definition dup_entry :: "pte_t \<Rightarrow> pte_t" where
  "dup_entry pte =
     mk_pte (PTE_ADDR pte)
       (if pte AND PTE_COW \<noteq> 0 \<or> pte AND PTE_W \<noteq> 0 then PTE_P OR PTE_U OR PTE_COW
        else PTE_P OR PTE_U)"

text \<open>
  \<open>child_complete s c s'\<close>: in \<open>s'\<close> the child \<open>c\<close> has the whole address space that the
  parent branch, started in \<open>s\<close>, is to give it.  Every page of the parent's walk is
  mapped, onto the parent's frame and with the duplicator's permissions; every other
  page but the exception stack is as the child had it; the exception-stack page is
  mapped \<open>PTE_P | PTE_W | PTE_U\<close> onto a frame of its own, the one that headed the free
  list; and the upcall is the one of the parent's entry of \<open>envs\<close>.
\<close>

definition child_complete :: "kstate \<Rightarrow> envid_t \<Rightarrow> kstate \<Rightarrow> bool" where
  "child_complete s c s' \<longleftrightarrow>
     list_all (\<lambda>pn. pgdir_walk (envs s' (ENVX c)) pn = dup_entry (uvpt s pn)) (fork_pages s) \<and>
     (\<forall>q. q \<notin> set (fork_pages s) \<and> q \<noteq> PGNUM (UXSTACKTOP - PGSIZE) \<longrightarrow>
          pgdir_walk (envs s' (ENVX c)) q = pgdir_walk (envs s (ENVX c)) q) \<and>
     (case page_free_list s of
        [] \<Rightarrow> False
      | f # fs \<Rightarrow> pgdir_walk (envs s' (ENVX c)) (PGNUM (UXSTACKTOP - PGSIZE)) =
                   mk_pte f (PTE_P OR PTE_W OR PTE_U)) \<and>
     env_pgfault_upcall (envs s' (ENVX c)) =
       env_pgfault_upcall (envs s (u_thisenv (envs s (curenv s))))"

text \<open>The two machines above with no free frame left.\<close>

definition demo_noframes :: kstate where
  "demo_noframes = demo_state\<lparr>page_free_list := []\<rparr>"

definition demo_noframes_forked :: kstate where
  "demo_noframes_forked = demo_forked\<lparr>page_free_list := []\<rparr>"

section \<open>Auxiliary facts\<close>

lemmas cdefs = PTE_COW_def PTE_P_def PTE_W_def PTE_U_def PTE_SYSCALL_def FEC_WR_def PGSIZE_def
  NPTENTRIES_def UTOP_def UXSTACKTOP_def PFTEMP_def PGNUM_def PDX_def ROUNDDOWN_def ENVX_def
  E_BAD_ENV_def E_INVAL_def E_NO_MEM_def E_NO_FREE_ENV_def mk_pte_def PTE_ADDR_def

lemmas kdefs = pgdir_walk_def uvpd_def uvpt_def sysret_def envid2env_def perm_ok_def page_insert_def
  page_remove_def sys_getenvid_def sys_page_alloc_def sys_page_map_def sys_page_unmap_def
  sys_env_set_pgfault_upcall_def sys_env_set_status_def new_envid_def sys_exofork_def panic_def memmove_page_def

lemmas demos = blank_env_def demo_parent_def demo_state_def demo_utf_def demo_utf_read_def

subsection \<open>Words\<close>

lemma bit_low12:
  assumes "take_bit 12 perm = perm" and "bit (perm :: 32 word) n"
  shows "n < 12"
proof -
  from assms have "bit (take_bit 12 perm) n" by simp
  then show ?thesis by (simp add: bit_simps)
qed

lemma PTE_ADDR_mk_pte: "take_bit 12 perm = perm \<Longrightarrow> PTE_ADDR (mk_pte f perm) = f"
  unfolding PTE_ADDR_def mk_pte_def PTE_P_def
  by (rule bit_word_eqI) (auto simp add: bit_simps dest: bit_low12)

lemma PTE_FLAGS_mk_pte: "take_bit 12 perm = perm \<Longrightarrow> PTE_FLAGS (mk_pte f perm) = perm OR PTE_P"
  unfolding PTE_FLAGS_def mk_pte_def PTE_P_def
  by (rule bit_word_eqI) (auto simp add: bit_simps dest: bit_low12)

lemma AND_flags: "take_bit 12 m = m \<Longrightarrow> pte AND m = PTE_FLAGS pte AND m"
  unfolding PTE_FLAGS_def
  by (rule bit_word_eqI) (auto simp add: bit_simps dest: bit_low12)

lemma PGNUM_ROUNDDOWN: "PGNUM (ROUNDDOWN a PGSIZE) = PGNUM a"
proof -
  have "unat a mod 4096 \<le> unat a" by simp
  then have "a mod 4096 \<le> a" by (simp add: word_le_nat_alt unat_mod)
  then have "unat (a - a mod 4096) = unat a - unat a mod 4096"
    by (simp add: unat_sub unat_mod)
  moreover have "(unat a - unat a mod 4096) div 4096 = unat a div 4096"
    by (simp add: minus_mod_eq_mult_div)
  ultimately have "unat (drop_bit 12 (a - a mod 4096)) = unat (drop_bit 12 a)"
    by (simp add: unat_drop_bit_eq drop_bit_eq_div unat_div)
  then show ?thesis
    by (simp add: word_unat_eq_iff PGNUM_def ROUNDDOWN_def PGSIZE_def)
qed

lemma PGNUM_page: "pn < 2 ^ 20 \<Longrightarrow> PGNUM (pn * PGSIZE) = pn"
proof -
  assume "pn < 2 ^ 20"
  then have "unat pn < 2 ^ 20" by (simp add: word_less_nat_alt)
  then have "unat (pn * 4096) = unat pn * 4096"
    by (simp add: unat_word_ariths)
  then have "unat (drop_bit 12 (pn * 4096)) = unat pn"
    by (simp add: unat_drop_bit_eq drop_bit_eq_div unat_div)
  then show ?thesis by (simp add: word_unat_eq_iff PGNUM_def PGSIZE_def)
qed

lemma perm_ok_low12: "perm_ok perm \<Longrightarrow> take_bit 12 perm = perm"
proof -
  assume "perm_ok perm"
  then have a: "perm AND NOT PTE_SYSCALL = 0" by (simp add: perm_ok_def)
  have "perm = perm AND (PTE_SYSCALL OR NOT PTE_SYSCALL)" by simp
  also have "\<dots> = (perm AND PTE_SYSCALL) OR (perm AND NOT PTE_SYSCALL)"
    by (simp only: bit.conj_disj_distrib)
  finally have "perm AND PTE_SYSCALL = perm" using a by simp
  then have "perm \<le> PTE_SYSCALL" by (metis word_and_le1)
  then have "perm < 2 ^ 12" by (simp add: PTE_SYSCALL_def word_le_nat_alt word_less_nat_alt)
  then show ?thesis using less_mask_eq[of perm 12] by (simp add: take_bit_eq_mask)
qed

lemma perm_ok_simps [simp]:
  "perm_ok (PTE_P OR PTE_W OR PTE_U)" "perm_ok (PTE_P OR PTE_U OR PTE_COW)" "perm_ok (PTE_P OR PTE_U)"
  "perm_ok (PTE_P OR PTE_U OR 0)"
  by (simp_all add: perm_ok_def cdefs)

subsection \<open>Page tables\<close>

lemma pgdir_walk_page_insert:
  "pgdir_walk (page_insert e pn pte) q = (if q = pn then pte else pgdir_walk e q)"
  by (auto simp add: pgdir_walk_def page_insert_def PTE_P_def PTE_W_def PTE_U_def)

lemma pgdir_walk_page_remove:
  "pgdir_walk (page_remove e pn) q = (if q = pn then 0 else pgdir_walk e q)"
  by (auto simp add: pgdir_walk_def page_remove_def)

lemma mk_pte_AND:
  "take_bit 12 m = m \<Longrightarrow> take_bit 12 perm = perm \<Longrightarrow> mk_pte f perm AND m = (perm OR PTE_P) AND m"
  using AND_flags[of m "mk_pte f perm"] PTE_FLAGS_mk_pte[of perm f] by simp

lemma low12_consts [simp]:
  "take_bit 12 PTE_P = PTE_P" "take_bit 12 PTE_W = PTE_W" "take_bit 12 PTE_U = PTE_U"
  "take_bit 12 PTE_COW = PTE_COW"
  "take_bit 12 (PTE_P OR PTE_W OR PTE_U) = PTE_P OR PTE_W OR PTE_U"
  "take_bit 12 (PTE_P OR PTE_U OR PTE_COW) = PTE_P OR PTE_U OR PTE_COW"
  "take_bit 12 (PTE_P OR PTE_U) = PTE_P OR PTE_U"
  by (simp_all add: cdefs)

lemma mk_pte_PWU_bits [simp]:
  "mk_pte f (PTE_P OR PTE_W OR PTE_U) AND PTE_P \<noteq> 0"
  "mk_pte f (PTE_P OR PTE_W OR PTE_U) AND PTE_W \<noteq> 0"
  "mk_pte f (PTE_P OR PTE_W OR PTE_U) AND PTE_U \<noteq> 0"
  "mk_pte f (PTE_P OR PTE_W OR PTE_U) AND PTE_COW = 0"
  by (simp_all add: mk_pte_AND) (simp_all add: cdefs)

lemma mk_pte_PUC_bits [simp]:
  "mk_pte f (PTE_P OR PTE_U OR PTE_COW) AND PTE_P \<noteq> 0"
  "mk_pte f (PTE_P OR PTE_U OR PTE_COW) AND PTE_W = 0"
  "mk_pte f (PTE_P OR PTE_U OR PTE_COW) AND PTE_U \<noteq> 0"
  "mk_pte f (PTE_P OR PTE_U OR PTE_COW) AND PTE_COW \<noteq> 0"
  by (simp_all add: mk_pte_AND) (simp_all add: cdefs)

lemma mk_pte_PU_bits [simp]:
  "mk_pte f (PTE_P OR PTE_U) AND PTE_P \<noteq> 0"
  "mk_pte f (PTE_P OR PTE_U) AND PTE_W = 0"
  "mk_pte f (PTE_P OR PTE_U) AND PTE_U \<noteq> 0"
  "mk_pte f (PTE_P OR PTE_U) AND PTE_COW = 0"
  by (simp_all add: mk_pte_AND) (simp_all add: cdefs)

lemma mk_pte_present [simp]: "mk_pte f perm AND PTE_P \<noteq> 0"
proof -
  have "bit (mk_pte f perm AND PTE_P) 0"
    by (simp add: mk_pte_def PTE_P_def bit_simps)
  then show ?thesis by auto
qed

subsection \<open>What a system call that did not refuse has done\<close>

lemma sys_page_alloc_ok:
  assumes "sys_page_alloc envid va perm s = (r, s')" and "\<not> r < 0"
  obtains f fs where "r = 0" "envid2env s envid = Some (ENVX envid)" "perm_ok perm"
    "page_free_list s = f # fs" "page_free_list s' = fs"
    "envs s' = (envs s)(ENVX envid := page_insert (envs s (ENVX envid)) (PGNUM va) (mk_pte f perm))"
    "phys s' = (phys s)(f := (\<lambda>_. 0))" "curenv s' = curenv s"
    "env_free_list s' = env_free_list s"
    "syslog s' = syslog s @ [(SYS_page_alloc envid va perm, 0)]"
  using assms
  by (auto simp add: sys_page_alloc_def sysret_def envid2env_def Let_def E_BAD_ENV_def E_INVAL_def
        E_NO_MEM_def split: option.splits if_splits list.splits)

lemma sys_page_alloc_refused:
  assumes "sys_page_alloc envid va perm s = (r, s')" and "r < 0"
  shows "s' = s\<lparr>syslog := syslog s @ [(SYS_page_alloc envid va perm, r)]\<rparr>"
  using assms
  by (auto simp add: sys_page_alloc_def sysret_def split: option.splits if_splits list.splits)

lemma sys_page_map_ok:
  assumes "sys_page_map a va b vb perm s = (r, s')" and "\<not> r < 0"
  obtains "r = 0" "envid2env s a = Some (ENVX a)" "envid2env s b = Some (ENVX b)" "perm_ok perm"
    "pgdir_walk (envs s (ENVX a)) (PGNUM va) AND PTE_P \<noteq> 0"
    "envs s' = (envs s)(ENVX b := page_insert (envs s (ENVX b)) (PGNUM vb)
        (mk_pte (PTE_ADDR (pgdir_walk (envs s (ENVX a)) (PGNUM va))) perm))"
    "phys s' = phys s" "curenv s' = curenv s" "page_free_list s' = page_free_list s"
    "env_free_list s' = env_free_list s"
    "syslog s' = syslog s @ [(SYS_page_map a va b vb perm, 0)]"
  using assms
  by (auto simp add: sys_page_map_def sysret_def envid2env_def Let_def E_BAD_ENV_def E_INVAL_def
        split: option.splits if_splits)

lemma sys_page_map_refused:
  assumes "sys_page_map a va b vb perm s = (r, s')" and "r < 0"
  shows "s' = s\<lparr>syslog := syslog s @ [(SYS_page_map a va b vb perm, r)]\<rparr>"
  using assms
  by (auto simp add: sys_page_map_def sysret_def Let_def split: option.splits if_splits)

lemma sys_page_unmap_ok:
  assumes "sys_page_unmap envid va s = (r, s')" and "\<not> r < 0"
  obtains "r = 0" "envid2env s envid = Some (ENVX envid)"
    "envs s' = (envs s)(ENVX envid := page_remove (envs s (ENVX envid)) (PGNUM va))"
    "phys s' = phys s" "curenv s' = curenv s" "page_free_list s' = page_free_list s"
    "env_free_list s' = env_free_list s"
    "syslog s' = syslog s @ [(SYS_page_unmap envid va, 0)]"
  using assms
  by (auto simp add: sys_page_unmap_def sysret_def envid2env_def Let_def E_BAD_ENV_def
        split: option.splits if_splits)

lemma sys_page_unmap_refused:
  assumes "sys_page_unmap envid va s = (r, s')" and "r < 0"
  shows "s' = s\<lparr>syslog := syslog s @ [(SYS_page_unmap envid va, r)]\<rparr>"
  using assms
  by (auto simp add: sys_page_unmap_def sysret_def split: option.splits if_splits)

lemma sys_env_set_pgfault_upcall_ok:
  assumes "sys_env_set_pgfault_upcall envid func s = (r, s')" and "\<not> r < 0"
  obtains "r = 0" "envid2env s envid = Some (ENVX envid)"
    "envs s' = (envs s)(ENVX envid := (envs s (ENVX envid))\<lparr>env_pgfault_upcall := func\<rparr>)"
    "phys s' = phys s" "curenv s' = curenv s" "page_free_list s' = page_free_list s"
    "env_free_list s' = env_free_list s"
    "syslog s' = syslog s @ [(SYS_env_set_pgfault_upcall envid func, 0)]"
  using assms
  by (auto simp add: sys_env_set_pgfault_upcall_def sysret_def envid2env_def Let_def E_BAD_ENV_def
        split: option.splits if_splits)

lemma sys_env_set_pgfault_upcall_refused:
  assumes "sys_env_set_pgfault_upcall envid func s = (r, s')" and "r < 0"
  shows "s' = s\<lparr>syslog := syslog s @ [(SYS_env_set_pgfault_upcall envid func, r)]\<rparr>"
  using assms
  by (auto simp add: sys_env_set_pgfault_upcall_def sysret_def split: option.splits if_splits)

lemma sys_env_set_status_ok:
  assumes "sys_env_set_status envid st s = (r, s')" and "\<not> r < 0"
  obtains "r = 0" "envid2env s envid = Some (ENVX envid)"
    "envs s' = (envs s)(ENVX envid := (envs s (ENVX envid))\<lparr>env_status := st\<rparr>)"
    "phys s' = phys s" "curenv s' = curenv s" "page_free_list s' = page_free_list s"
    "env_free_list s' = env_free_list s"
    "syslog s' = syslog s @ [(SYS_env_set_status envid st, 0)]"
  using assms
  by (auto simp add: sys_env_set_status_def sysret_def envid2env_def Let_def E_BAD_ENV_def
        E_INVAL_def split: option.splits if_splits)

lemma sys_env_set_status_refused:
  assumes "sys_env_set_status envid st s = (r, s')" and "r < 0"
  shows "s' = s\<lparr>syslog := syslog s @ [(SYS_env_set_status envid st, r)]\<rparr>"
  using assms
  by (auto simp add: sys_env_set_status_def sysret_def split: option.splits if_splits)

lemma memmove_page_ok:
  assumes "memmove_page dst src s = Inr (u, s')"
  obtains "uvpt s (PGNUM src) AND PTE_P \<noteq> 0" "uvpt s (PGNUM src) AND PTE_U \<noteq> 0"
    "uvpt s (PGNUM dst) AND PTE_P \<noteq> 0" "uvpt s (PGNUM dst) AND PTE_W \<noteq> 0"
    "phys s' = (phys s)(PTE_ADDR (uvpt s (PGNUM dst)) := phys s (PTE_ADDR (uvpt s (PGNUM src))))"
    "envs s' = envs s" "curenv s' = curenv s" "page_free_list s' = page_free_list s"
    "env_free_list s' = env_free_list s" "syslog s' = syslog s"
  using assms by (auto simp add: memmove_page_def Let_def split: if_splits)

lemma uvpt_page_insert:
  assumes "curenv s' = curenv s"
    and "envs s' = (envs s)(curenv s := page_insert (envs s (curenv s)) pn pte)"
  shows "uvpt s' q = (if q = pn then pte else uvpt s q)"
  using assms by (simp add: uvpt_def pgdir_walk_page_insert)

lemma uvpt_page_remove:
  assumes "curenv s' = curenv s"
    and "envs s' = (envs s)(curenv s := page_remove (envs s (curenv s)) pn)"
  shows "uvpt s' q = (if q = pn then 0 else uvpt s q)"
  using assms by (simp add: uvpt_def pgdir_walk_page_remove)

lemma uvpt_cong: "curenv s' = curenv s \<Longrightarrow> envs s' = envs s \<Longrightarrow> uvpt s' q = uvpt s q"
  by (simp add: uvpt_def)

lemma pgfault_InrE:
  assumes "pgfault utf s = Inr (u, s')"
  obtains r1 s1 s2 r3 s3 r4 where
    "utf_err utf AND FEC_WR \<noteq> 0" "uvpt s (PGNUM (utf_fault_va utf)) AND PTE_COW \<noteq> 0"
    "sys_page_alloc (sys_getenvid s) PFTEMP (PTE_P OR PTE_W OR PTE_U) s = (r1, s1)" "\<not> r1 < 0"
    "memmove_page PFTEMP (ROUNDDOWN (utf_fault_va utf) PGSIZE) s1 = Inr ((), s2)"
    "sys_page_unmap (sys_getenvid s) (ROUNDDOWN (utf_fault_va utf) PGSIZE) s2 = (r3, s3)"
    "\<not> r3 < 0"
    "sys_page_map (sys_getenvid s) PFTEMP (sys_getenvid s) (ROUNDDOWN (utf_fault_va utf) PGSIZE)
       (PTE_P OR PTE_W OR PTE_U) s3 = (r4, s')"
    "\<not> r4 < 0"
  using assms
  by (auto simp add: pgfault_def Let_def panic_def split: if_splits prod.splits sum.splits)

text \<open>The state a successful run of the handler ends in.\<close>

lemma pgfault_effect:
  assumes run: "pgfault utf s = Inr (u, s')"
    and self: "ENVX (sys_getenvid s) = curenv s"
  obtains f fs where
    "utf_err utf AND FEC_WR \<noteq> 0" "uvpt s (PGNUM (utf_fault_va utf)) AND PTE_COW \<noteq> 0"
    "uvpt s (PGNUM (utf_fault_va utf)) AND PTE_P \<noteq> 0"
    "PGNUM (utf_fault_va utf) \<noteq> PGNUM PFTEMP"
    "page_free_list s = f # fs" "page_free_list s' = fs" "curenv s' = curenv s"
    "\<And>q. uvpt s' q = (if q = PGNUM (utf_fault_va utf) \<or> q = PGNUM PFTEMP
                         then mk_pte f (PTE_P OR PTE_W OR PTE_U) else uvpt s q)"
    "phys s' = (phys s)(f := (if PTE_ADDR (uvpt s (PGNUM (utf_fault_va utf))) = f then (\<lambda>_. 0)
                              else phys s (PTE_ADDR (uvpt s (PGNUM (utf_fault_va utf)))))) "
    "syslog s' = syslog s @
       [(SYS_page_alloc (sys_getenvid s) PFTEMP (PTE_P OR PTE_W OR PTE_U), 0),
        (SYS_page_unmap (sys_getenvid s) (ROUNDDOWN (utf_fault_va utf) PGSIZE), 0),
        (SYS_page_map (sys_getenvid s) PFTEMP (sys_getenvid s)
           (ROUNDDOWN (utf_fault_va utf) PGSIZE) (PTE_P OR PTE_W OR PTE_U), 0)]"
proof -
  define pn where "pn = PGNUM (utf_fault_va utf)"
  define tp where "tp = PGNUM PFTEMP"
  define me where "me = sys_getenvid s"
  define va where "va = ROUNDDOWN (utf_fault_va utf) PGSIZE"
  have pva: "PGNUM va = pn" by (simp add: va_def pn_def PGNUM_ROUNDDOWN)
  from run obtain r1 s1 s2 r3 s3 r4 where
    wr: "utf_err utf AND FEC_WR \<noteq> 0" and cow: "uvpt s pn AND PTE_COW \<noteq> 0"
    and a: "sys_page_alloc me PFTEMP (PTE_P OR PTE_W OR PTE_U) s = (r1, s1)" "\<not> r1 < 0"
    and m: "memmove_page PFTEMP va s1 = Inr ((), s2)"
    and um: "sys_page_unmap me va s2 = (r3, s3)" "\<not> r3 < 0"
    and mp: "sys_page_map me PFTEMP me va (PTE_P OR PTE_W OR PTE_U) s3 = (r4, s')" "\<not> r4 < 0"
    unfolding pn_def me_def va_def by (rule pgfault_InrE)
  from a obtain f fs where
    fl: "page_free_list s = f # fs" "page_free_list s1 = fs"
    and e1: "envs s1 = (envs s)(ENVX me := page_insert (envs s (ENVX me)) tp
                (mk_pte f (PTE_P OR PTE_W OR PTE_U)))"
    and p1: "phys s1 = (phys s)(f := (\<lambda>_. 0))" and c1: "curenv s1 = curenv s"
    and l1: "syslog s1 = syslog s @ [(SYS_page_alloc me PFTEMP (PTE_P OR PTE_W OR PTE_U), 0)]"
    unfolding tp_def by (rule sys_page_alloc_ok)
  have cur: "ENVX me = curenv s" using self by (simp add: me_def)
  have u1: "uvpt s1 q = (if q = tp then mk_pte f (PTE_P OR PTE_W OR PTE_U) else uvpt s q)" for q
    using c1 e1 unfolding cur by (rule uvpt_page_insert)
  from m have
    srcp: "uvpt s1 pn AND PTE_P \<noteq> 0"
    and p2: "phys s2 = (phys s1)(PTE_ADDR (uvpt s1 tp) := phys s1 (PTE_ADDR (uvpt s1 pn)))"
    and e2: "envs s2 = envs s1" and c2: "curenv s2 = curenv s1"
    and f2: "page_free_list s2 = page_free_list s1" and l2: "syslog s2 = syslog s1"
    unfolding tp_def pva[symmetric] by (auto elim: memmove_page_ok)
  from um have
    e3: "envs s3 = (envs s2)(ENVX me := page_remove (envs s2 (ENVX me)) pn)"
    and p3: "phys s3 = phys s2" and c3: "curenv s3 = curenv s2"
    and f3: "page_free_list s3 = page_free_list s2"
    and l3: "syslog s3 = syslog s2 @ [(SYS_page_unmap me va, 0)]"
    unfolding pva[symmetric] by (auto elim: sys_page_unmap_ok)
  have c32: "curenv s2 = curenv s" using c1 c2 by simp
  have u2: "uvpt s2 q = uvpt s1 q" for q using c2 e2 by (rule uvpt_cong)
  have u3: "uvpt s3 q = (if q = pn then 0 else uvpt s2 q)" for q
    using c3 e3 unfolding cur c32[symmetric] by (rule uvpt_page_remove)
  from mp have
    srcq: "pgdir_walk (envs s3 (ENVX me)) tp AND PTE_P \<noteq> 0"
    and e4: "envs s' = (envs s3)(ENVX me := page_insert (envs s3 (ENVX me)) pn
                (mk_pte (PTE_ADDR (pgdir_walk (envs s3 (ENVX me)) tp)) (PTE_P OR PTE_W OR PTE_U)))"
    and p4: "phys s' = phys s3" and c4: "curenv s' = curenv s3"
    and f4: "page_free_list s' = page_free_list s3"
    and l4: "syslog s' = syslog s3 @ [(SYS_page_map me PFTEMP me va (PTE_P OR PTE_W OR PTE_U), 0)]"
    unfolding pva[symmetric] tp_def by (auto elim: sys_page_map_ok)
  have c33: "curenv s3 = curenv s" using c3 c32 by simp
  have w3: "pgdir_walk (envs s3 (ENVX me)) tp = uvpt s3 tp"
    by (simp add: uvpt_def cur c33)
  have w3': "pgdir_walk (envs s3 (curenv s)) tp = uvpt s3 tp"
    by (simp add: uvpt_def c33)
  have ne: "pn \<noteq> tp"
  proof
    assume "pn = tp"
    then have "uvpt s3 tp = 0" by (simp add: u3)
    with srcq w3 show False by simp
  qed
  have t3: "uvpt s3 tp = mk_pte f (PTE_P OR PTE_W OR PTE_U)"
    using ne by (simp add: u3 u2 u1)
  have u4: "uvpt s' q = (if q = pn then mk_pte f (PTE_P OR PTE_W OR PTE_U) else uvpt s3 q)" for q
  proof -
    have "envs s' = (envs s3)(curenv s3 := page_insert (envs s3 (curenv s3)) pn
             (mk_pte f (PTE_P OR PTE_W OR PTE_U)))"
      using e4 by (simp add: w3' t3 PTE_ADDR_mk_pte cur c33)
    with c4 show ?thesis by (rule uvpt_page_insert)
  qed
  have srcs: "uvpt s pn AND PTE_P \<noteq> 0" using srcp ne by (simp add: u1)
  have uall: "uvpt s' q = (if q = pn \<or> q = tp then mk_pte f (PTE_P OR PTE_W OR PTE_U)
                           else uvpt s q)" for q
    using ne by (simp add: u4 u3 u2 u1)
  have ph: "phys s' = (phys s)(f := (if PTE_ADDR (uvpt s pn) = f then (\<lambda>_. 0)
                                     else phys s (PTE_ADDR (uvpt s pn))))"
    using ne by (simp add: p4 p3 p2 p1 u1 PTE_ADDR_mk_pte)
  have lg: "syslog s' = syslog s @
       [(SYS_page_alloc me PFTEMP (PTE_P OR PTE_W OR PTE_U), 0), (SYS_page_unmap me va, 0),
        (SYS_page_map me PFTEMP me va (PTE_P OR PTE_W OR PTE_U), 0)]"
    by (simp add: l4 l3 l2 l1)
  show ?thesis
    using that[OF wr cow[unfolded pn_def] srcs[unfolded pn_def] ne[unfolded pn_def tp_def] fl(1)
        _ _ uall[unfolded pn_def tp_def] ph[unfolded pn_def] lg[unfolded me_def va_def]]
    by (simp add: f4 f3 f2 fl c4 c33)
qed

lemma page_insert_fields [simp]:
  "env_id (page_insert e pn pte) = env_id e"
  "env_status (page_insert e pn pte) = env_status e"
  "env_pgfault_upcall (page_insert e pn pte) = env_pgfault_upcall e"
  "u_thisenv (page_insert e pn pte) = u_thisenv e"
  "u_pgfault_handler (page_insert e pn pte) = u_pgfault_handler e"
  "u_pgfault_upcall (page_insert e pn pte) = u_pgfault_upcall e"
  by (simp_all add: page_insert_def)

lemma page_remove_fields [simp]:
  "env_id (page_remove e pn) = env_id e"
  "env_status (page_remove e pn) = env_status e"
  "env_pgfault_upcall (page_remove e pn) = env_pgfault_upcall e"
  "u_thisenv (page_remove e pn) = u_thisenv e"
  "u_pgfault_handler (page_remove e pn) = u_pgfault_handler e"
  "u_pgfault_upcall (page_remove e pn) = u_pgfault_upcall e"
  by (simp_all add: page_remove_def)

lemma envid2env_envs_upd:
  assumes "envs s' = (envs s)(x := e')" and "env_status e' = env_status (envs s x)"
    and "env_id e' = env_id (envs s x)"
  shows "envid2env s' envid = envid2env s envid"
  using assms by (simp add: envid2env_def Let_def)

lemma envid2env_cong: "envs s' = envs s \<Longrightarrow> envid2env s' envid = envid2env s envid"
  by (simp add: envid2env_def)

lemma envid2env_SomeD: "envid2env s envid = Some e \<Longrightarrow> e = ENVX envid"
  by (simp add: envid2env_def Let_def split: if_splits)

lemma sys_page_alloc_success:
  assumes "envid2env s envid = Some e" and "perm_ok perm" and "page_free_list s \<noteq> []"
  shows "\<exists>s'. sys_page_alloc envid va perm s = (0, s')"
  using assms by (cases "page_free_list s") (simp_all add: sys_page_alloc_def sysret_def)

lemma sys_page_unmap_success:
  assumes "envid2env s envid = Some e"
  shows "\<exists>s'. sys_page_unmap envid va s = (0, s')"
  using assms by (simp add: sys_page_unmap_def sysret_def)

lemma sys_page_map_success:
  assumes "envid2env s a = Some ea" and "envid2env s b = Some eb" and "perm_ok perm"
    and "pgdir_walk (envs s ea) (PGNUM va) AND PTE_P \<noteq> 0"
  shows "\<exists>s'. sys_page_map a va b vb perm s = (0, s')"
  using assms by (simp add: sys_page_map_def sysret_def Let_def)

lemma memmove_page_success:
  assumes "uvpt s (PGNUM src) AND PTE_P \<noteq> 0" "uvpt s (PGNUM src) AND PTE_U \<noteq> 0"
    "uvpt s (PGNUM dst) AND PTE_P \<noteq> 0" "uvpt s (PGNUM dst) AND PTE_U \<noteq> 0"
    "uvpt s (PGNUM dst) AND PTE_W \<noteq> 0"
  shows "\<exists>s'. memmove_page dst src s = Inr ((), s')"
  using assms by (simp add: memmove_page_def Let_def)

lemma pgfault_succeeds:
  assumes wr: "utf_err utf AND FEC_WR \<noteq> 0"
    and cow: "uvpt s (PGNUM (utf_fault_va utf)) AND PTE_COW \<noteq> 0"
    and k: "kernel_can_copy s (utf_fault_va utf)"
  shows "\<exists>s'. pgfault utf s = Inr ((), s')"
proof -
  define pn where "pn = PGNUM (utf_fault_va utf)"
  define tp where "tp = PGNUM PFTEMP"
  define me where "me = sys_getenvid s"
  define va where "va = ROUNDDOWN (utf_fault_va utf) PGSIZE"
  have pva: "PGNUM va = pn" by (simp add: va_def pn_def PGNUM_ROUNDDOWN)
  from k have self: "envid2env s me = Some (curenv s)" and fr: "page_free_list s \<noteq> []"
    and pp: "uvpt s pn AND PTE_P \<noteq> 0" and pu: "uvpt s pn AND PTE_U \<noteq> 0" and ne: "pn \<noteq> tp"
    by (simp_all add: kernel_can_copy_def me_def pn_def tp_def)
  have cur: "ENVX me = curenv s" using envid2env_SomeD[OF self] by simp
  from sys_page_alloc_success[OF self _ fr, of "PTE_P OR PTE_W OR PTE_U" PFTEMP]
  obtain s1 where a: "sys_page_alloc me PFTEMP (PTE_P OR PTE_W OR PTE_U) s = (0, s1)"
    by auto
  from a obtain f fs where
    "page_free_list s = f # fs"
    and e1: "envs s1 = (envs s)(ENVX me := page_insert (envs s (ENVX me)) tp
                (mk_pte f (PTE_P OR PTE_W OR PTE_U)))"
    and c1: "curenv s1 = curenv s"
    unfolding tp_def by (rule sys_page_alloc_ok) simp_all
  have u1: "uvpt s1 q = (if q = tp then mk_pte f (PTE_P OR PTE_W OR PTE_U) else uvpt s q)" for q
    using c1 e1 unfolding cur by (rule uvpt_page_insert)
  have i1: "envid2env s1 me = Some (curenv s)"
    using envid2env_envs_upd[OF e1, of me] self by simp
  have "\<exists>s2. memmove_page PFTEMP va s1 = Inr ((), s2)"
    by (rule memmove_page_success) (use pp pu ne in \<open>simp_all add: pva u1 tp_def[symmetric]\<close>)
  then obtain s2 where m: "memmove_page PFTEMP va s1 = Inr ((), s2)" ..
  from m have e2: "envs s2 = envs s1" and c2: "curenv s2 = curenv s1"
    by (auto elim: memmove_page_ok)
  have i2: "envid2env s2 me = Some (curenv s)"
    using envid2env_cong[OF e2, of me] i1 by simp
  from sys_page_unmap_success[OF i2, of va]
  obtain s3 where um: "sys_page_unmap me va s2 = (0, s3)" ..
  from um have e3: "envs s3 = (envs s2)(ENVX me := page_remove (envs s2 (ENVX me)) pn)"
    and c3: "curenv s3 = curenv s2"
    unfolding pva[symmetric] by (auto elim: sys_page_unmap_ok)
  have i3: "envid2env s3 me = Some (curenv s)"
    using envid2env_envs_upd[OF e3, of me] i2 by simp
  have c32: "curenv s2 = curenv s" using c1 c2 by simp
  have u3: "uvpt s3 q = (if q = pn then 0 else uvpt s2 q)" for q
    using c3 e3 unfolding cur c32[symmetric] by (rule uvpt_page_remove)
  have u2: "uvpt s2 q = uvpt s1 q" for q using c2 e2 by (rule uvpt_cong)
  have "pgdir_walk (envs s3 (curenv s)) (PGNUM PFTEMP) = uvpt s3 tp"
    by (simp add: uvpt_def c3 c32 tp_def)
  then have src: "pgdir_walk (envs s3 (curenv s)) (PGNUM PFTEMP) AND PTE_P \<noteq> 0"
    using ne by (simp add: u3 u2 u1)
  from sys_page_map_success[OF i3 i3 _ src, of "PTE_P OR PTE_W OR PTE_U" va]
  obtain s4 where mp: "sys_page_map me PFTEMP me va (PTE_P OR PTE_W OR PTE_U) s3 = (0, s4)"
    by auto
  have "pgfault utf s = Inr ((), s4)"
    using wr cow a m um mp
    by (simp add: pgfault_def Let_def me_def[symmetric] va_def[symmetric] pn_def[symmetric])
  then show ?thesis ..
qed

section \<open>The fault handler resolves exactly the write faults on copy-on-write pages\<close>

text \<open>
  C1.  The handler \<open>pgfault\<close> resolves a fault if and only if the fault record says
  write (\<open>FEC_WR\<close> in the error word) and the entry of the page holding the faulting
  address has \<open>PTE_COW\<close>.  The handler refuses the fault, with the panic of its guard and
  in the state it was called in (nothing has been remapped and no system call has been
  made), exactly when one of the two fails; in every other case it goes on to allocate and
  copy.  A run that returns has passed the guard and has resolved the fault: the page
  holding the faulting address is present and writable and no longer copy-on-write, mapped
  \<open>PTE_P | PTE_W | PTE_U\<close> onto the frame that headed the free list (the running
  environment being the entry of \<open>envs\<close> its identifier names).  On a machine where the
  kernel can serve the handler, the handler returns with the fault resolved exactly when
  the guard is passed.
\<close>

theorem pgfault_resolves_iff_cow_write:
  "((pgfault utf s =
        Inl (Panic ''pgfault: Not a write error or address is not on a COW page'', s)) =
      (utf_err utf AND FEC_WR = 0 \<or> uvpt s (PGNUM (utf_fault_va utf)) AND PTE_COW = 0)) \<and>
   (\<forall>u s'. pgfault utf s = Inr (u, s') \<longrightarrow>
      utf_err utf AND FEC_WR \<noteq> 0 \<and> uvpt s (PGNUM (utf_fault_va utf)) AND PTE_COW \<noteq> 0) \<and>
   (\<forall>u s'. pgfault utf s = Inr (u, s') \<and> ENVX (sys_getenvid s) = curenv s \<longrightarrow>
      uvpt s' (PGNUM (utf_fault_va utf)) AND PTE_P \<noteq> 0 \<and>
      uvpt s' (PGNUM (utf_fault_va utf)) AND PTE_W \<noteq> 0 \<and>
      uvpt s' (PGNUM (utf_fault_va utf)) AND PTE_COW = 0 \<and>
      (\<exists>f fs. page_free_list s = f # fs \<and>
         uvpt s' (PGNUM (utf_fault_va utf)) = mk_pte f (PTE_P OR PTE_W OR PTE_U))) \<and>
   (kernel_can_copy s (utf_fault_va utf) \<longrightarrow>
      (\<exists>s'. pgfault utf s = Inr ((), s') \<and>
         uvpt s' (PGNUM (utf_fault_va utf)) AND PTE_W \<noteq> 0 \<and>
         uvpt s' (PGNUM (utf_fault_va utf)) AND PTE_COW = 0) =
      (utf_err utf AND FEC_WR \<noteq> 0 \<and> uvpt s (PGNUM (utf_fault_va utf)) AND PTE_COW \<noteq> 0))"
proof -
  have resolved: "uvpt s' (PGNUM (utf_fault_va utf)) AND PTE_P \<noteq> 0 \<and>
      uvpt s' (PGNUM (utf_fault_va utf)) AND PTE_W \<noteq> 0 \<and>
      uvpt s' (PGNUM (utf_fault_va utf)) AND PTE_COW = 0 \<and>
      (\<exists>f fs. page_free_list s = f # fs \<and>
         uvpt s' (PGNUM (utf_fault_va utf)) = mk_pte f (PTE_P OR PTE_W OR PTE_U))"
    if run: "pgfault utf s = Inr (u, s')" and self: "ENVX (sys_getenvid s) = curenv s"
    for u s'
  proof -
    from run self obtain f fs where
      fl: "page_free_list s = f # fs"
      and u: "\<And>q. uvpt s' q = (if q = PGNUM (utf_fault_va utf) \<or> q = PGNUM PFTEMP
                         then mk_pte f (PTE_P OR PTE_W OR PTE_U) else uvpt s q)"
      by (rule pgfault_effect) (rule that; assumption)
    have "uvpt s' (PGNUM (utf_fault_va utf)) = mk_pte f (PTE_P OR PTE_W OR PTE_U)"
      by (simp add: u)
    with fl show ?thesis by simp
  qed
  have 1: "(pgfault utf s =
        Inl (Panic ''pgfault: Not a write error or address is not on a COW page'', s)) =
      (utf_err utf AND FEC_WR = 0 \<or> uvpt s (PGNUM (utf_fault_va utf)) AND PTE_COW = 0)"
    by (auto simp add: pgfault_def Let_def panic_def memmove_page_def
        split: prod.splits if_splits sum.splits)
  have 2: "\<forall>u s'. pgfault utf s = Inr (u, s') \<longrightarrow>
      utf_err utf AND FEC_WR \<noteq> 0 \<and> uvpt s (PGNUM (utf_fault_va utf)) AND PTE_COW \<noteq> 0"
    by (auto elim: pgfault_InrE)
  have 3: "\<forall>u s'. pgfault utf s = Inr (u, s') \<and> ENVX (sys_getenvid s) = curenv s \<longrightarrow>
      uvpt s' (PGNUM (utf_fault_va utf)) AND PTE_P \<noteq> 0 \<and>
      uvpt s' (PGNUM (utf_fault_va utf)) AND PTE_W \<noteq> 0 \<and>
      uvpt s' (PGNUM (utf_fault_va utf)) AND PTE_COW = 0 \<and>
      (\<exists>f fs. page_free_list s = f # fs \<and>
         uvpt s' (PGNUM (utf_fault_va utf)) = mk_pte f (PTE_P OR PTE_W OR PTE_U))"
    using resolved by blast
  have 4: "(\<exists>s'. pgfault utf s = Inr ((), s') \<and>
         uvpt s' (PGNUM (utf_fault_va utf)) AND PTE_W \<noteq> 0 \<and>
         uvpt s' (PGNUM (utf_fault_va utf)) AND PTE_COW = 0) =
      (utf_err utf AND FEC_WR \<noteq> 0 \<and> uvpt s (PGNUM (utf_fault_va utf)) AND PTE_COW \<noteq> 0)"
    if k: "kernel_can_copy s (utf_fault_va utf)"
  proof
    assume "\<exists>s'. pgfault utf s = Inr ((), s') \<and>
         uvpt s' (PGNUM (utf_fault_va utf)) AND PTE_W \<noteq> 0 \<and>
         uvpt s' (PGNUM (utf_fault_va utf)) AND PTE_COW = 0"
    with 2 show "utf_err utf AND FEC_WR \<noteq> 0 \<and>
        uvpt s (PGNUM (utf_fault_va utf)) AND PTE_COW \<noteq> 0" by blast
  next
    assume g: "utf_err utf AND FEC_WR \<noteq> 0 \<and>
        uvpt s (PGNUM (utf_fault_va utf)) AND PTE_COW \<noteq> 0"
    with k obtain s' where run: "pgfault utf s = Inr ((), s')"
      using pgfault_succeeds by blast
    from k have "envid2env s (sys_getenvid s) = Some (curenv s)"
      by (simp add: kernel_can_copy_def)
    from envid2env_SomeD[OF this] have self: "ENVX (sys_getenvid s) = curenv s" by simp
    from resolved[OF run self] run
    show "\<exists>s'. pgfault utf s = Inr ((), s') \<and>
         uvpt s' (PGNUM (utf_fault_va utf)) AND PTE_W \<noteq> 0 \<and>
         uvpt s' (PGNUM (utf_fault_va utf)) AND PTE_COW = 0" by blast
  qed
  from 1 2 3 4 show ?thesis by blast
qed


lemma uvpt_demo_state:
  "uvpt demo_state pn =
     (if pn = 0xEEBFF then 0x6007 else if pn = 0x802 then 0x5805
      else if pn = 0x801 then 0x4007 else if pn = 0x800 then 0x3005 else 0)"
  by (simp add: uvpt_def pgdir_walk_def demos cdefs)

lemma kernel_can_copy_demo: "kernel_can_copy demo_state (utf_fault_va demo_utf)"
  by (simp add: kernel_can_copy_def uvpt_demo_state)
     (simp add: demos cdefs envid2env_def sys_getenvid_def)

lemma demo_self: "ENVX (sys_getenvid demo_state) = curenv demo_state"
  by (simp add: demos cdefs sys_getenvid_def)

lemma demo_fault_page: "PGNUM (utf_fault_va demo_utf) = 0x802"
  by (simp add: demos cdefs)

text \<open>
  On the concrete machine, a write to the copy-on-write page at \<open>0x802abc\<close> is resolved:
  page \<open>0x802\<close>, copy-on-write and not writable before, is writable and not copy-on-write
  after, on frame 7; and a read fault at the same address panics at the guard.
\<close>

theorem pgfault_resolves_iff_cow_write_witness:
  "kernel_can_copy demo_state (utf_fault_va demo_utf) \<and>
   uvpt demo_state 0x802 AND PTE_W = 0 \<and> uvpt demo_state 0x802 AND PTE_COW \<noteq> 0 \<and>
   (\<exists>s'. pgfault demo_utf demo_state = Inr ((), s') \<and>
      uvpt s' 0x802 AND PTE_W \<noteq> 0 \<and> uvpt s' 0x802 AND PTE_COW = 0 \<and>
      uvpt s' 0x802 = mk_pte 7 (PTE_P OR PTE_W OR PTE_U)) \<and>
   utf_err demo_utf_read AND FEC_WR = 0 \<and>
   pgfault demo_utf_read demo_state =
     Inl (Panic ''pgfault: Not a write error or address is not on a COW page'', demo_state)"
proof -
  have w: "utf_err demo_utf AND FEC_WR \<noteq> 0 \<and>
      uvpt demo_state (PGNUM (utf_fault_va demo_utf)) AND PTE_COW \<noteq> 0"
    by (simp add: uvpt_demo_state) (simp add: demos cdefs)
  have b: "uvpt demo_state 0x802 AND PTE_W = 0 \<and> uvpt demo_state 0x802 AND PTE_COW \<noteq> 0"
    by (simp add: uvpt_demo_state) (simp add: cdefs)
  have r: "utf_err demo_utf_read AND FEC_WR = 0"
    by (simp add: demos cdefs)
  have fl: "page_free_list demo_state = [7, 8, 9]" by (simp add: demos)
  note t = pgfault_resolves_iff_cow_write[of demo_utf demo_state]
  from t kernel_can_copy_demo w
  obtain s' where run: "pgfault demo_utf demo_state = Inr ((), s')" by blast
  from t run demo_self
  have "uvpt s' (PGNUM (utf_fault_va demo_utf)) AND PTE_W \<noteq> 0 \<and>
      uvpt s' (PGNUM (utf_fault_va demo_utf)) AND PTE_COW = 0 \<and>
      (\<exists>f fs. page_free_list demo_state = f # fs \<and>
         uvpt s' (PGNUM (utf_fault_va demo_utf)) = mk_pte f (PTE_P OR PTE_W OR PTE_U))"
    by blast
  then have 1: "uvpt s' 0x802 AND PTE_W \<noteq> 0 \<and> uvpt s' 0x802 AND PTE_COW = 0 \<and>
      uvpt s' 0x802 = mk_pte 7 (PTE_P OR PTE_W OR PTE_U)"
    unfolding demo_fault_page fl by auto
  from pgfault_resolves_iff_cow_write[of demo_utf_read demo_state] r
  have 2: "pgfault demo_utf_read demo_state =
     Inl (Panic ''pgfault: Not a write error or address is not on a COW page'', demo_state)"
    by blast
  from kernel_can_copy_demo b run 1 r 2 show ?thesis by blast
qed

section \<open>What a resolved fault leaves behind\<close>

text \<open>
  C2.  After \<open>pgfault\<close> has returned from a write fault on a copy-on-write page at
  address \<open>a\<close>, the page holding \<open>a\<close> is mapped in the running environment with
  exactly \<open>PTE_P | PTE_U | PTE_W\<close> onto the frame that headed the free list, that frame
  holds the bytes of the frame the page was mapped to before, no other frame has changed,
  and every page of the environment other than that page and the scratch page \<open>PFTEMP\<close>
  has the entry it had.  The running environment is assumed to be the entry of \<open>envs\<close>
  its identifier names, and the frame it had mapped is assumed not to be on the free
  list, as the kernel maintains.
\<close>

theorem pgfault_private_copy:
  assumes run: "pgfault utf s = Inr (u, s')"
    and self: "ENVX (sys_getenvid s) = curenv s"
    and notfree: "PTE_ADDR (uvpt s (PGNUM (utf_fault_va utf))) \<notin> set (page_free_list s)"
  shows "\<exists>f fs. page_free_list s = f # fs \<and> page_free_list s' = fs \<and>
      uvpt s' (PGNUM (utf_fault_va utf)) = mk_pte f (PTE_P OR PTE_U OR PTE_W) \<and>
      PTE_FLAGS (uvpt s' (PGNUM (utf_fault_va utf))) = PTE_P OR PTE_U OR PTE_W \<and>
      PTE_ADDR (uvpt s' (PGNUM (utf_fault_va utf))) = f \<and>
      phys s' f = phys s (PTE_ADDR (uvpt s (PGNUM (utf_fault_va utf)))) \<and>
      (\<forall>g. g \<noteq> f \<longrightarrow> phys s' g = phys s g) \<and>
      (\<forall>q. q \<noteq> PGNUM (utf_fault_va utf) \<and> q \<noteq> PGNUM PFTEMP \<longrightarrow> uvpt s' q = uvpt s q)"
proof -
  from run self obtain f fs where
    fl: "page_free_list s = f # fs" "page_free_list s' = fs"
    and u: "\<And>q. uvpt s' q = (if q = PGNUM (utf_fault_va utf) \<or> q = PGNUM PFTEMP
                         then mk_pte f (PTE_P OR PTE_W OR PTE_U) else uvpt s q)"
    and p: "phys s' = (phys s)(f := (if PTE_ADDR (uvpt s (PGNUM (utf_fault_va utf))) = f
                              then (\<lambda>_. 0)
                              else phys s (PTE_ADDR (uvpt s (PGNUM (utf_fault_va utf))))))"
    by (rule pgfault_effect) (rule that; assumption)
  have perm: "PTE_P OR PTE_W OR PTE_U = PTE_P OR PTE_U OR PTE_W"
    by (simp add: cdefs)
  have old: "PTE_ADDR (uvpt s (PGNUM (utf_fault_va utf))) \<noteq> f"
    using notfree fl by auto
  have "uvpt s' (PGNUM (utf_fault_va utf)) = mk_pte f (PTE_P OR PTE_U OR PTE_W)"
    by (simp add: u perm)
  moreover have "PTE_FLAGS (mk_pte f (PTE_P OR PTE_W OR PTE_U)) = PTE_P OR PTE_U OR PTE_W"
    by (simp add: PTE_FLAGS_mk_pte) (simp add: cdefs)
  moreover have "PTE_ADDR (mk_pte f (PTE_P OR PTE_W OR PTE_U)) = f"
    by (simp add: PTE_ADDR_mk_pte)
  moreover have "phys s' f = phys s (PTE_ADDR (uvpt s (PGNUM (utf_fault_va utf))))"
    using old by (simp add: p)
  moreover have "\<forall>g. g \<noteq> f \<longrightarrow> phys s' g = phys s g"
    by (simp add: p)
  moreover have "\<forall>q. q \<noteq> PGNUM (utf_fault_va utf) \<and> q \<noteq> PGNUM PFTEMP \<longrightarrow> uvpt s' q = uvpt s q"
    by (simp add: u)
  ultimately show ?thesis using fl by (simp add: u)
qed

lemma demo_pgfault_runs: "\<exists>s'. pgfault demo_utf demo_state = Inr ((), s')"
proof (rule pgfault_succeeds)
  show "utf_err demo_utf AND FEC_WR \<noteq> 0" by (simp add: demos cdefs)
  show "uvpt demo_state (PGNUM (utf_fault_va demo_utf)) AND PTE_COW \<noteq> 0"
    by (simp add: uvpt_demo_state) (simp add: demos cdefs)
  show "kernel_can_copy demo_state (utf_fault_va demo_utf)" by (rule kernel_can_copy_demo)
qed

text \<open>
  On the concrete machine: after the write fault at \<open>0x802abc\<close>, page \<open>0x802\<close> is mapped
  writable onto frame 7, which holds the bytes of frame 5.
\<close>

theorem pgfault_private_copy_witness:
  "\<exists>s'. pgfault demo_utf demo_state = Inr ((), s') \<and>
      uvpt s' 0x802 = mk_pte 7 (PTE_P OR PTE_U OR PTE_W) \<and>
      phys s' 7 = phys demo_state 5 \<and> phys s' 5 = phys demo_state 5 \<and>
      uvpt s' 0x801 = uvpt demo_state 0x801"
proof -
  from demo_pgfault_runs obtain s' where run: "pgfault demo_utf demo_state = Inr ((), s')" ..
  have old: "PTE_ADDR (uvpt demo_state (PGNUM (utf_fault_va demo_utf))) = 5"
    by (simp add: demo_fault_page uvpt_demo_state) (simp add: cdefs)
  have nf: "PTE_ADDR (uvpt demo_state (PGNUM (utf_fault_va demo_utf))) \<notin> set (page_free_list demo_state)"
    unfolding old by (simp add: demos)
  have old': "PTE_ADDR (uvpt demo_state 0x802) = 5"
    using old by (simp add: demo_fault_page)
  have fl: "page_free_list demo_state = [7, 8, 9]" by (simp add: demos)
  have tp: "PGNUM PFTEMP = 0x7ff" by (simp add: cdefs)
  from pgfault_private_copy[OF run demo_self nf]
  have "uvpt s' 0x802 = mk_pte 7 (PTE_P OR PTE_U OR PTE_W) \<and>
      phys s' 7 = phys demo_state 5 \<and> phys s' 5 = phys demo_state 5 \<and>
      uvpt s' 0x801 = uvpt demo_state 0x801"
    unfolding demo_fault_page old' fl tp by auto
  with run show ?thesis by blast
qed

text \<open>
  C3.  The spec has the scratch slot \<open>PFTEMP\<close> unmapped when the handler exits.  The
  handler unmaps the faulting address, not the scratch slot, and \<open>sys_page_map\<close> adds a
  mapping without removing its source: after every successful run \<open>PFTEMP\<close> is still
  mapped, present and writable, with the very entry of the faulting page, so both
  addresses name the new frame.
\<close>

theorem pgfault_leaves_scratch_mapped:
  assumes run: "pgfault utf s = Inr (u, s')"
    and self: "ENVX (sys_getenvid s) = curenv s"
  shows "uvpt s' (PGNUM PFTEMP) AND PTE_P \<noteq> 0 \<and>
         uvpt s' (PGNUM PFTEMP) AND PTE_W \<noteq> 0 \<and>
         uvpt s' (PGNUM PFTEMP) = uvpt s' (PGNUM (utf_fault_va utf))"
proof -
  from run self obtain f where
    u: "\<And>q. uvpt s' q = (if q = PGNUM (utf_fault_va utf) \<or> q = PGNUM PFTEMP
                         then mk_pte f (PTE_P OR PTE_W OR PTE_U) else uvpt s q)"
    by (rule pgfault_effect) (rule that; assumption)
  show ?thesis by (simp add: u)
qed

text \<open>On the concrete machine, the scratch page is mapped after the handler has run.\<close>

theorem pgfault_leaves_scratch_mapped_witness:
  "\<exists>s'. pgfault demo_utf demo_state = Inr ((), s') \<and> uvpt s' (PGNUM PFTEMP) AND PTE_P \<noteq> 0 \<and>
      uvpt s' (PGNUM PFTEMP) = uvpt s' 0x802"
proof -
  from demo_pgfault_runs obtain s' where run: "pgfault demo_utf demo_state = Inr ((), s')" ..
  from pgfault_leaves_scratch_mapped[OF run demo_self] run show ?thesis
    unfolding demo_fault_page by blast
qed

section \<open>The page duplicator\<close>

lemma PTE_COW_nz [simp]: "PTE_COW \<noteq> 0"
  by (simp add: PTE_COW_def)

lemma duppage_cow_run:
  assumes "duppage envid pn s = Inr (r, s')"
    and "uvpt s pn AND PTE_COW \<noteq> 0 \<or> uvpt s pn AND PTE_W \<noteq> 0"
  shows "\<exists>r1 s1 r2. r = 0 \<and>
      sys_page_map (sys_getenvid s) (pn * PGSIZE) envid (pn * PGSIZE)
         (PTE_P OR PTE_U OR PTE_COW) s = (r1, s1) \<and> \<not> r1 < 0 \<and>
      sys_page_map (sys_getenvid s) (pn * PGSIZE) (sys_getenvid s) (pn * PGSIZE)
         (PTE_P OR PTE_U OR PTE_COW) s1 = (r2, s') \<and> \<not> r2 < 0"
  using assms
  by (auto simp add: duppage_def Let_def panic_def split: if_splits prod.splits)

lemma duppage_ro_run:
  assumes "duppage envid pn s = Inr (r, s')"
    and "uvpt s pn AND PTE_COW = 0" and "uvpt s pn AND PTE_W = 0"
  shows "\<exists>r1. r = 0 \<and>
      sys_page_map (sys_getenvid s) (pn * PGSIZE) envid (pn * PGSIZE)
         (PTE_P OR PTE_U) s = (r1, s') \<and> \<not> r1 < 0"
  using assms
  by (auto simp add: duppage_def Let_def panic_def split: if_splits prod.splits)

lemma pgdir_walk_envs_upd:
  assumes "envs s' = (envs s)(x := page_insert (envs s x) pn pte)"
  shows "pgdir_walk (envs s' y) q = (if y = x \<and> q = pn then pte else pgdir_walk (envs s y) q)"
  using assms by (simp add: pgdir_walk_page_insert)

text \<open>The page tables after a run of \<open>duppage\<close> that returned.\<close>

lemma duppage_effect:
  assumes run: "duppage envid pn s = Inr (r, s')"
    and self: "ENVX (sys_getenvid s) = curenv s"
  shows "r = 0 \<and> curenv s' = curenv s \<and> phys s' = phys s \<and>
     page_free_list s' = page_free_list s \<and> env_free_list s' = env_free_list s \<and>
     envid2env s envid = Some (ENVX envid) \<and>
     uvpt s (PGNUM (pn * PGSIZE)) AND PTE_P \<noteq> 0 \<and>
     (\<forall>y q. pgdir_walk (envs s' y) q =
        (if q = PGNUM (pn * PGSIZE) \<and>
            (y = ENVX envid \<or>
             y = curenv s \<and> (uvpt s pn AND PTE_COW \<noteq> 0 \<or> uvpt s pn AND PTE_W \<noteq> 0))
         then mk_pte (PTE_ADDR (uvpt s (PGNUM (pn * PGSIZE))))
                (if uvpt s pn AND PTE_COW \<noteq> 0 \<or> uvpt s pn AND PTE_W \<noteq> 0
                 then PTE_P OR PTE_U OR PTE_COW else PTE_P OR PTE_U)
         else pgdir_walk (envs s y) q)) \<and>
     syslog s' = syslog s @
        (if uvpt s pn AND PTE_COW \<noteq> 0 \<or> uvpt s pn AND PTE_W \<noteq> 0
         then [(SYS_page_map (sys_getenvid s) (pn * PGSIZE) envid (pn * PGSIZE)
                  (PTE_P OR PTE_U OR PTE_COW), 0),
               (SYS_page_map (sys_getenvid s) (pn * PGSIZE) (sys_getenvid s) (pn * PGSIZE)
                  (PTE_P OR PTE_U OR PTE_COW), 0)]
         else [(SYS_page_map (sys_getenvid s) (pn * PGSIZE) envid (pn * PGSIZE)
                  (PTE_P OR PTE_U), 0)])"
proof -
  define me where "me = sys_getenvid s"
  define va where "va = pn * PGSIZE"
  define q where "q = PGNUM va"
  define fr where "fr = PTE_ADDR (uvpt s q)"
  have cur: "ENVX me = curenv s" using self by (simp add: me_def)
  have w0: "pgdir_walk (envs s (curenv s)) p = uvpt s p" for p by (simp add: uvpt_def)
  show ?thesis
  proof (cases "uvpt s pn AND PTE_COW \<noteq> 0 \<or> uvpt s pn AND PTE_W \<noteq> 0")
    case True
    from duppage_cow_run[OF run True] obtain r1 s1 r2 where
      r: "r = 0"
      and m1: "sys_page_map me va envid va (PTE_P OR PTE_U OR PTE_COW) s = (r1, s1)" "\<not> r1 < 0"
      and m2: "sys_page_map me va me va (PTE_P OR PTE_U OR PTE_COW) s1 = (r2, s')" "\<not> r2 < 0"
      unfolding me_def va_def by blast
    from m1 have
      i1: "envid2env s envid = Some (ENVX envid)"
      and sp: "pgdir_walk (envs s (ENVX me)) q AND PTE_P \<noteq> 0"
      and e1: "envs s1 = (envs s)(ENVX envid := page_insert (envs s (ENVX envid)) q
                 (mk_pte (PTE_ADDR (pgdir_walk (envs s (ENVX me)) q)) (PTE_P OR PTE_U OR PTE_COW)))"
      and o1: "phys s1 = phys s" "curenv s1 = curenv s" "page_free_list s1 = page_free_list s"
        "env_free_list s1 = env_free_list s"
      and l1: "syslog s1 = syslog s @ [(SYS_page_map me va envid va (PTE_P OR PTE_U OR PTE_COW), 0)]"
      unfolding q_def by (auto elim: sys_page_map_ok)
    have e1': "envs s1 = (envs s)(ENVX envid := page_insert (envs s (ENVX envid)) q
                 (mk_pte fr (PTE_P OR PTE_U OR PTE_COW)))"
      using e1 by (simp add: cur w0 fr_def)
    have w1: "pgdir_walk (envs s1 y) p =
        (if y = ENVX envid \<and> p = q then mk_pte fr (PTE_P OR PTE_U OR PTE_COW)
         else pgdir_walk (envs s y) p)" for y p
      using e1' by (rule pgdir_walk_envs_upd)
    from m2 have
      e2: "envs s' = (envs s1)(ENVX me := page_insert (envs s1 (ENVX me)) q
                 (mk_pte (PTE_ADDR (pgdir_walk (envs s1 (ENVX me)) q)) (PTE_P OR PTE_U OR PTE_COW)))"
      and o2: "phys s' = phys s1" "curenv s' = curenv s1" "page_free_list s' = page_free_list s1"
        "env_free_list s' = env_free_list s1"
      and l2: "syslog s' = syslog s1 @ [(SYS_page_map me va me va (PTE_P OR PTE_U OR PTE_COW), 0)]"
      unfolding q_def by (auto elim: sys_page_map_ok)
    have f1: "PTE_ADDR (pgdir_walk (envs s1 (curenv s)) q) = fr"
      by (simp add: w1 w0 PTE_ADDR_mk_pte fr_def)
    have e2': "envs s' = (envs s1)(curenv s := page_insert (envs s1 (curenv s)) q
                 (mk_pte fr (PTE_P OR PTE_U OR PTE_COW)))"
      using e2 by (simp add: cur f1)
    have w2: "pgdir_walk (envs s' y) p =
        (if y = curenv s \<and> p = q then mk_pte fr (PTE_P OR PTE_U OR PTE_COW)
         else pgdir_walk (envs s1 y) p)" for y p
      using e2' by (rule pgdir_walk_envs_upd)
    have "uvpt s q AND PTE_P \<noteq> 0" using sp by (simp add: cur w0)
    moreover have "\<forall>y p. pgdir_walk (envs s' y) p =
        (if p = q \<and> (y = ENVX envid \<or> y = curenv s)
         then mk_pte fr (PTE_P OR PTE_U OR PTE_COW) else pgdir_walk (envs s y) p)"
      by (auto simp add: w2 w1)
    ultimately show ?thesis
      using True r i1 o1 o2 l1 l2
      by (simp add: q_def[symmetric] va_def[symmetric] me_def[symmetric] fr_def[symmetric])
  next
    case False
    then have nc: "uvpt s pn AND PTE_COW = 0" and nw: "uvpt s pn AND PTE_W = 0" by simp_all
    from duppage_ro_run[OF run nc nw] obtain r1 where
      r: "r = 0"
      and m1: "sys_page_map me va envid va (PTE_P OR PTE_U) s = (r1, s')" "\<not> r1 < 0"
      unfolding me_def va_def by blast
    from m1 have
      i1: "envid2env s envid = Some (ENVX envid)"
      and sp: "pgdir_walk (envs s (ENVX me)) q AND PTE_P \<noteq> 0"
      and e1: "envs s' = (envs s)(ENVX envid := page_insert (envs s (ENVX envid)) q
                 (mk_pte (PTE_ADDR (pgdir_walk (envs s (ENVX me)) q)) (PTE_P OR PTE_U)))"
      and o1: "phys s' = phys s" "curenv s' = curenv s" "page_free_list s' = page_free_list s"
        "env_free_list s' = env_free_list s"
      and l1: "syslog s' = syslog s @ [(SYS_page_map me va envid va (PTE_P OR PTE_U), 0)]"
      unfolding q_def by (auto elim: sys_page_map_ok)
    have e1': "envs s' = (envs s)(ENVX envid := page_insert (envs s (ENVX envid)) q
                 (mk_pte fr (PTE_P OR PTE_U)))"
      using e1 by (simp add: cur w0 fr_def)
    have w1: "pgdir_walk (envs s' y) p =
        (if y = ENVX envid \<and> p = q then mk_pte fr (PTE_P OR PTE_U)
         else pgdir_walk (envs s y) p)" for y p
      using e1' by (rule pgdir_walk_envs_upd)
    have "uvpt s q AND PTE_P \<noteq> 0" using sp by (simp add: cur w0)
    moreover have "\<forall>y p. pgdir_walk (envs s' y) p =
        (if p = q \<and> y = ENVX envid
         then mk_pte fr (PTE_P OR PTE_U) else pgdir_walk (envs s y) p)"
      by (auto simp add: w1)
    ultimately show ?thesis
      using False r i1 o1 l1
      by (simp add: q_def[symmetric] va_def[symmetric] me_def[symmetric] fr_def[symmetric])
  qed
qed



lemmas demos2 = demos demo_child_def demo_forked_def

lemma sys_exofork_demo: "sys_exofork demo_state = (0x1001, demo_forked)"
  by (simp add: sys_exofork_def sysret_def new_envid_def demos2)

lemma uvpt_demo_forked: "uvpt demo_forked = uvpt demo_state"
  by (rule ext) (simp add: uvpt_def demos2)

lemma demo_forked_self: "ENVX (sys_getenvid demo_forked) = curenv demo_forked"
  by (simp add: demos2 cdefs sys_getenvid_def)

lemma demo_forked_ids:
  "envid2env demo_forked (sys_getenvid demo_forked) = Some (curenv demo_forked)"
  "envid2env demo_forked 0x1001 = Some 1"
  "ENVX 0x1001 = 1" "curenv demo_forked = 0" "sys_getenvid demo_forked = 0x1000"
  by (simp_all add: demos2 cdefs sys_getenvid_def envid2env_def)

lemma duppage_succeeds:
  assumes self: "envid2env s (sys_getenvid s) = Some (curenv s)"
    and child: "envid2env s envid = Some c"
    and present: "uvpt s (PGNUM (pn * PGSIZE)) AND PTE_P \<noteq> 0"
  shows "\<exists>s'. duppage envid pn s = Inr (0, s')"
proof -
  define me where "me = sys_getenvid s"
  define va where "va = pn * PGSIZE"
  have cur: "ENVX me = curenv s" using envid2env_SomeD[OF self] by (simp add: me_def)
  have src: "pgdir_walk (envs s (curenv s)) (PGNUM va) AND PTE_P \<noteq> 0"
    using present by (simp add: uvpt_def va_def)
  show ?thesis
  proof (cases "uvpt s pn AND PTE_COW \<noteq> 0 \<or> uvpt s pn AND PTE_W \<noteq> 0")
    case False
    from sys_page_map_success[OF self[folded me_def] child _ src, of "PTE_P OR PTE_U" va]
    obtain s1 where "sys_page_map me va envid va (PTE_P OR PTE_U) s = (0, s1)"
      by auto
    with False show ?thesis
      by (simp add: duppage_def Let_def me_def[symmetric] va_def[symmetric])
  next
    case True
    from sys_page_map_success[OF self[folded me_def] child _ src, of "PTE_P OR PTE_U OR PTE_COW" va]
    obtain s1 where m1: "sys_page_map me va envid va (PTE_P OR PTE_U OR PTE_COW) s = (0, s1)"
      by auto
    from m1 have
      e1: "envs s1 = (envs s)(ENVX envid := page_insert (envs s (ENVX envid)) (PGNUM va)
             (mk_pte (PTE_ADDR (pgdir_walk (envs s (ENVX me)) (PGNUM va)))
                (PTE_P OR PTE_U OR PTE_COW)))"
      and c1: "curenv s1 = curenv s"
      by (auto elim: sys_page_map_ok)
    have i1: "envid2env s1 me = Some (curenv s)"
      using envid2env_envs_upd[OF e1, of me] self by (simp add: me_def)
    have "pgdir_walk (envs s1 (curenv s)) (PGNUM va) AND PTE_P \<noteq> 0"
      using src by (simp add: pgdir_walk_envs_upd[OF e1])
    from sys_page_map_success[OF i1 i1 _ this, of "PTE_P OR PTE_U OR PTE_COW" va]
    obtain s2 where "sys_page_map me va me va (PTE_P OR PTE_U OR PTE_COW) s1 = (0, s2)"
      by auto
    with m1 True show ?thesis
      by (auto simp add: duppage_def Let_def me_def[symmetric] va_def[symmetric])
  qed
qed

text \<open>
  C4.  For a call \<open>duppage(child, pn)\<close> that returns, on a page \<open>pn\<close> whose entry in the
  parent is present: if the entry has \<open>PTE_W\<close> or \<open>PTE_COW\<close>, the child's entry for \<open>pn\<close>
  becomes \<open>PTE_P | PTE_U | PTE_COW\<close> on the parent's frame and the parent's own entry
  is installed again as \<open>PTE_P | PTE_U | PTE_COW\<close>, by a second \<open>sys_page_map\<close> that is
  made also when the entry was copy-on-write already; if the entry has neither, the
  child's entry becomes \<open>PTE_P | PTE_U\<close> and the parent's entry is left as it was.  No
  other page of either changes.  The parent is assumed to be the entry of \<open>envs\<close> its
  identifier names and the child another entry.
\<close>

theorem duppage_policy:
  assumes run: "duppage envid pn s = Inr (r, s')"
    and self: "ENVX (sys_getenvid s) = curenv s"
    and child: "ENVX envid \<noteq> curenv s"
    and pn: "pn < 2 ^ 20"
    and present: "uvpt s pn AND PTE_P \<noteq> 0"
  shows "(uvpt s pn AND PTE_W \<noteq> 0 \<or> uvpt s pn AND PTE_COW \<noteq> 0 \<longrightarrow>
            pgdir_walk (envs s' (ENVX envid)) pn =
              mk_pte (PTE_ADDR (uvpt s pn)) (PTE_P OR PTE_U OR PTE_COW) \<and>
            uvpt s' pn = mk_pte (PTE_ADDR (uvpt s pn)) (PTE_P OR PTE_U OR PTE_COW) \<and>
            PTE_FLAGS (uvpt s' pn) = PTE_P OR PTE_U OR PTE_COW \<and>
            syslog s' = syslog s @
              [(SYS_page_map (sys_getenvid s) (pn * PGSIZE) envid (pn * PGSIZE)
                  (PTE_P OR PTE_U OR PTE_COW), 0),
               (SYS_page_map (sys_getenvid s) (pn * PGSIZE) (sys_getenvid s) (pn * PGSIZE)
                  (PTE_P OR PTE_U OR PTE_COW), 0)]) \<and>
         (uvpt s pn AND PTE_W = 0 \<and> uvpt s pn AND PTE_COW = 0 \<longrightarrow>
            pgdir_walk (envs s' (ENVX envid)) pn = mk_pte (PTE_ADDR (uvpt s pn)) (PTE_P OR PTE_U) \<and>
            PTE_FLAGS (pgdir_walk (envs s' (ENVX envid)) pn) = PTE_P OR PTE_U \<and>
            uvpt s' pn = uvpt s pn \<and>
            syslog s' = syslog s @
              [(SYS_page_map (sys_getenvid s) (pn * PGSIZE) envid (pn * PGSIZE)
                  (PTE_P OR PTE_U), 0)]) \<and>
         (\<forall>q. q \<noteq> pn \<longrightarrow> uvpt s' q = uvpt s q \<and>
            pgdir_walk (envs s' (ENVX envid)) q = pgdir_walk (envs s (ENVX envid)) q)"
proof -
  have q: "PGNUM (pn * PGSIZE) = pn" using pn by (rule PGNUM_page)
  from duppage_effect[OF run self] have
    c: "curenv s' = curenv s"
    and w: "\<And>y p. pgdir_walk (envs s' y) p =
        (if p = pn \<and>
            (y = ENVX envid \<or>
             y = curenv s \<and> (uvpt s pn AND PTE_COW \<noteq> 0 \<or> uvpt s pn AND PTE_W \<noteq> 0))
         then mk_pte (PTE_ADDR (uvpt s pn))
                (if uvpt s pn AND PTE_COW \<noteq> 0 \<or> uvpt s pn AND PTE_W \<noteq> 0
                 then PTE_P OR PTE_U OR PTE_COW else PTE_P OR PTE_U)
         else pgdir_walk (envs s y) p)"
    and l: "syslog s' = syslog s @
        (if uvpt s pn AND PTE_COW \<noteq> 0 \<or> uvpt s pn AND PTE_W \<noteq> 0
         then [(SYS_page_map (sys_getenvid s) (pn * PGSIZE) envid (pn * PGSIZE)
                  (PTE_P OR PTE_U OR PTE_COW), 0),
               (SYS_page_map (sys_getenvid s) (pn * PGSIZE) (sys_getenvid s) (pn * PGSIZE)
                  (PTE_P OR PTE_U OR PTE_COW), 0)]
         else [(SYS_page_map (sys_getenvid s) (pn * PGSIZE) envid (pn * PGSIZE)
                  (PTE_P OR PTE_U), 0)])"
    unfolding q by blast+
  have u: "uvpt s' p = pgdir_walk (envs s' (curenv s)) p" for p
    by (simp add: uvpt_def c)
  have u0: "pgdir_walk (envs s (curenv s)) p = uvpt s p" for p
    by (simp add: uvpt_def)
  have fl1: "PTE_FLAGS (mk_pte f (PTE_P OR PTE_U OR PTE_COW)) = PTE_P OR PTE_U OR PTE_COW" for f
    by (simp add: PTE_FLAGS_mk_pte) (simp add: cdefs)
  have fl2: "PTE_FLAGS (mk_pte f (PTE_P OR PTE_U)) = PTE_P OR PTE_U" for f
    by (simp add: PTE_FLAGS_mk_pte) (simp add: cdefs)
  show ?thesis
    using child by (auto simp add: u w l u0 fl1 fl2)
qed

lemma demo_pages_present:
  "uvpt demo_forked (PGNUM (0x801 * PGSIZE)) AND PTE_P \<noteq> 0"
  "uvpt demo_forked (PGNUM (0x800 * PGSIZE)) AND PTE_P \<noteq> 0"
  by (simp_all add: uvpt_demo_forked uvpt_demo_state PGNUM_page) (simp_all add: cdefs)

text \<open>
  On the concrete machine: the writable page \<open>0x801\<close> becomes copy-on-write on both
  sides, the read-only page \<open>0x800\<close> is shared as it is.
\<close>

theorem duppage_policy_witness:
  "(\<exists>s'. duppage 0x1001 0x801 demo_forked = Inr (0, s') \<and>
      pgdir_walk (envs s' 1) 0x801 = mk_pte 4 (PTE_P OR PTE_U OR PTE_COW) \<and>
      uvpt s' 0x801 = mk_pte 4 (PTE_P OR PTE_U OR PTE_COW)) \<and>
   (\<exists>s'. duppage 0x1001 0x800 demo_forked = Inr (0, s') \<and>
      pgdir_walk (envs s' 1) 0x800 = mk_pte 3 (PTE_P OR PTE_U) \<and>
      uvpt s' 0x800 = uvpt demo_forked 0x800)"
proof
  from duppage_succeeds[OF demo_forked_ids(1) demo_forked_ids(2) demo_pages_present(1)]
  obtain s' where run: "duppage 0x1001 0x801 demo_forked = Inr (0, s')" ..
  have w: "uvpt demo_forked 0x801 AND PTE_W \<noteq> 0" "uvpt demo_forked 0x801 AND PTE_P \<noteq> 0"
    "PTE_ADDR (uvpt demo_forked 0x801) = 4"
    by (simp_all add: uvpt_demo_forked uvpt_demo_state) (simp_all add: cdefs)
  from duppage_policy[OF run demo_forked_self _ _ w(2)] w(1)
  have "pgdir_walk (envs s' 1) 0x801 = mk_pte 4 (PTE_P OR PTE_U OR PTE_COW) \<and>
      uvpt s' 0x801 = mk_pte 4 (PTE_P OR PTE_U OR PTE_COW)"
    by (simp add: demo_forked_ids w(3))
  with run show "\<exists>s'. duppage 0x1001 0x801 demo_forked = Inr (0, s') \<and>
      pgdir_walk (envs s' 1) 0x801 = mk_pte 4 (PTE_P OR PTE_U OR PTE_COW) \<and>
      uvpt s' 0x801 = mk_pte 4 (PTE_P OR PTE_U OR PTE_COW)" by blast
next
  from duppage_succeeds[OF demo_forked_ids(1) demo_forked_ids(2) demo_pages_present(2)]
  obtain s' where run: "duppage 0x1001 0x800 demo_forked = Inr (0, s')" ..
  have w: "uvpt demo_forked 0x800 AND PTE_W = 0" "uvpt demo_forked 0x800 AND PTE_COW = 0"
    "uvpt demo_forked 0x800 AND PTE_P \<noteq> 0" "PTE_ADDR (uvpt demo_forked 0x800) = 3"
    by (simp_all add: uvpt_demo_forked uvpt_demo_state) (simp_all add: cdefs)
  from duppage_policy[OF run demo_forked_self _ _ w(3)] w(1,2)
  have "pgdir_walk (envs s' 1) 0x800 = mk_pte 3 (PTE_P OR PTE_U) \<and>
      uvpt s' 0x800 = uvpt demo_forked 0x800"
    by (simp add: demo_forked_ids w(4))
  with run show "\<exists>s'. duppage 0x1001 0x800 demo_forked = Inr (0, s') \<and>
      pgdir_walk (envs s' 1) 0x800 = mk_pte 3 (PTE_P OR PTE_U) \<and>
      uvpt s' 0x800 = uvpt demo_forked 0x800" by blast
qed

text \<open>
  C10.  A call \<open>duppage(child, pn)\<close> that returns, returns zero, and has first mapped the
  parent's page at \<open>pn * PGSIZE\<close> into the child at the same address: the child's entry
  for that page is present and names the parent's frame.  The negative return the
  comment above \<open>duppage\<close> allows is never taken: when \<open>sys_page_map\<close> refuses, in
  the first call or in the second, \<open>duppage\<close> panics.
\<close>

theorem duppage_returns_zero:
  "(\<forall>r s'. duppage envid pn s = Inr (r, s') \<longrightarrow> r = 0) \<and>
   (\<forall>r s'. duppage envid pn s = Inr (r, s') \<and> ENVX (sys_getenvid s) = curenv s \<longrightarrow>
      (\<exists>perm rest. syslog s' = syslog s @
          (SYS_page_map (sys_getenvid s) (pn * PGSIZE) envid (pn * PGSIZE) perm, 0) # rest) \<and>
      pgdir_walk (envs s' (ENVX envid)) (PGNUM (pn * PGSIZE)) AND PTE_P \<noteq> 0 \<and>
      PTE_ADDR (pgdir_walk (envs s' (ENVX envid)) (PGNUM (pn * PGSIZE))) =
        PTE_ADDR (uvpt s (PGNUM (pn * PGSIZE)))) \<and>
   (\<forall>r1 s1. sys_page_map (sys_getenvid s) (pn * PGSIZE) envid (pn * PGSIZE)
        (PTE_P OR PTE_U OR
          (if uvpt s pn AND PTE_COW \<noteq> 0 \<or> uvpt s pn AND PTE_W \<noteq> 0 then PTE_COW else 0)) s
        = (r1, s1) \<and> r1 < 0 \<longrightarrow>
      duppage envid pn s =
        Inl (Panic ''duppage: Cannot map page into target environment'', s1)) \<and>
   (\<forall>r1 s1 r2 s2. (uvpt s pn AND PTE_COW \<noteq> 0 \<or> uvpt s pn AND PTE_W \<noteq> 0) \<and>
      sys_page_map (sys_getenvid s) (pn * PGSIZE) envid (pn * PGSIZE)
        (PTE_P OR PTE_U OR PTE_COW) s = (r1, s1) \<and> \<not> r1 < 0 \<and>
      sys_page_map (sys_getenvid s) (pn * PGSIZE) (sys_getenvid s) (pn * PGSIZE)
        (PTE_P OR PTE_U OR PTE_COW) s1 = (r2, s2) \<and> r2 < 0 \<longrightarrow>
      duppage envid pn s = Inl (Panic ''duppage: Cannot remap page as COW'', s2))"
proof (intro conjI allI impI)
  fix r s'
  assume "duppage envid pn s = Inr (r, s')"
  then show "r = 0"
    by (auto simp add: duppage_def Let_def panic_def split: if_splits prod.splits)
next
  fix r s'
  assume a: "duppage envid pn s = Inr (r, s') \<and> ENVX (sys_getenvid s) = curenv s"
  note eff = duppage_effect[OF conjunct1[OF a] conjunct2[OF a]]
  from eff show "\<exists>perm rest. syslog s' = syslog s @
      (SYS_page_map (sys_getenvid s) (pn * PGSIZE) envid (pn * PGSIZE) perm, 0) # rest"
    by (cases "uvpt s pn AND PTE_COW \<noteq> 0 \<or> uvpt s pn AND PTE_W \<noteq> 0") simp_all
  from eff have w: "pgdir_walk (envs s' (ENVX envid)) (PGNUM (pn * PGSIZE)) =
      mk_pte (PTE_ADDR (uvpt s (PGNUM (pn * PGSIZE))))
        (if uvpt s pn AND PTE_COW \<noteq> 0 \<or> uvpt s pn AND PTE_W \<noteq> 0
         then PTE_P OR PTE_U OR PTE_COW else PTE_P OR PTE_U)"
    by simp
  show "pgdir_walk (envs s' (ENVX envid)) (PGNUM (pn * PGSIZE)) AND PTE_P \<noteq> 0"
    unfolding w by simp
  show "PTE_ADDR (pgdir_walk (envs s' (ENVX envid)) (PGNUM (pn * PGSIZE))) =
      PTE_ADDR (uvpt s (PGNUM (pn * PGSIZE)))"
    unfolding w by (simp add: PTE_ADDR_mk_pte)
next
  fix r1 s1
  assume "sys_page_map (sys_getenvid s) (pn * PGSIZE) envid (pn * PGSIZE)
        (PTE_P OR PTE_U OR
          (if uvpt s pn AND PTE_COW \<noteq> 0 \<or> uvpt s pn AND PTE_W \<noteq> 0 then PTE_COW else 0)) s
        = (r1, s1) \<and> r1 < 0"
  then show "duppage envid pn s =
      Inl (Panic ''duppage: Cannot map page into target environment'', s1)"
    by (simp add: duppage_def Let_def panic_def)
next
  fix r1 s1 r2 s2
  assume "(uvpt s pn AND PTE_COW \<noteq> 0 \<or> uvpt s pn AND PTE_W \<noteq> 0) \<and>
      sys_page_map (sys_getenvid s) (pn * PGSIZE) envid (pn * PGSIZE)
        (PTE_P OR PTE_U OR PTE_COW) s = (r1, s1) \<and> \<not> r1 < 0 \<and>
      sys_page_map (sys_getenvid s) (pn * PGSIZE) (sys_getenvid s) (pn * PGSIZE)
        (PTE_P OR PTE_U OR PTE_COW) s1 = (r2, s2) \<and> r2 < 0"
  then show "duppage envid pn s = Inl (Panic ''duppage: Cannot remap page as COW'', s2)"
    by (auto simp add: duppage_def Let_def panic_def)
qed

lemma demo_bad_child:
  "sys_page_map (sys_getenvid demo_forked) (0x801 * PGSIZE) 0x2002 (0x801 * PGSIZE)
     (PTE_P OR PTE_U OR
       (if uvpt demo_forked 0x801 AND PTE_COW \<noteq> 0 \<or> uvpt demo_forked 0x801 AND PTE_W \<noteq> 0
        then PTE_COW else 0)) demo_forked =
   (- E_BAD_ENV, demo_forked\<lparr>syslog := syslog demo_forked @
      [(SYS_page_map 0x1000 (0x801 * PGSIZE) 0x2002 (0x801 * PGSIZE)
          (PTE_P OR PTE_U OR PTE_COW), - E_BAD_ENV)]\<rparr>)"
  by (simp add: uvpt_demo_forked uvpt_demo_state)
     (simp add: sys_page_map_def sysret_def envid2env_def sys_getenvid_def demos2 cdefs)

text \<open>
  On the concrete machine: duplicating page \<open>0x801\<close> into the child returns zero and
  shares frame 4; duplicating it into an environment that does not exist panics.
\<close>

theorem duppage_returns_zero_witness:
  "(\<exists>s'. duppage 0x1001 0x801 demo_forked = Inr (0, s') \<and>
      PTE_ADDR (pgdir_walk (envs s' 1) 0x801) = 4) \<and>
   (\<exists>s1. duppage 0x2002 0x801 demo_forked =
      Inl (Panic ''duppage: Cannot map page into target environment'', s1))"
proof
  from duppage_succeeds[OF demo_forked_ids(1) demo_forked_ids(2) demo_pages_present(1)]
  obtain s' where run: "duppage 0x1001 0x801 demo_forked = Inr (0, s')" ..
  have pg: "PGNUM (0x801 * PGSIZE) = 0x801" by (simp add: PGNUM_page)
  have fr: "PTE_ADDR (uvpt demo_forked 0x801) = 4"
    by (simp add: uvpt_demo_forked uvpt_demo_state) (simp add: cdefs)
  from duppage_returns_zero[where envid="0x1001" and pn="0x801" and s=demo_forked] run demo_forked_self
  have "PTE_ADDR (pgdir_walk (envs s' (ENVX 0x1001)) (PGNUM (0x801 * PGSIZE))) =
      PTE_ADDR (uvpt demo_forked (PGNUM (0x801 * PGSIZE)))"
    by blast
  then have "PTE_ADDR (pgdir_walk (envs s' 1) 0x801) = 4"
    by (simp add: pg fr demo_forked_ids)
  with run show "\<exists>s'. duppage 0x1001 0x801 demo_forked = Inr (0, s') \<and>
      PTE_ADDR (pgdir_walk (envs s' 1) 0x801) = 4" by blast
next
  have neg: "- E_BAD_ENV < 0" by (simp add: E_BAD_ENV_def)
  from duppage_returns_zero[where envid="0x2002" and pn="0x801" and s=demo_forked] demo_bad_child neg
  show "\<exists>s1. duppage 0x2002 0x801 demo_forked =
      Inl (Panic ''duppage: Cannot map page into target environment'', s1)"
    by blast
qed

section \<open>The duplication walk\<close>

lemma pgno_of_nat:
  assumes "j < 1024"
  shows "push_bit 10 (of_nat i) OR (of_nat j :: 32 word) = of_nat (1024 * i + j)"
proof -
  have j: "take_bit 10 (of_nat j :: 32 word) = of_nat j"
    using assms by (simp add: take_bit_of_nat take_bit_nat_eq_self)
  have "push_bit 10 (of_nat i :: 32 word) AND of_nat j = 0"
  proof (rule bit_word_eqI)
    fix n assume "n < LENGTH(32)"
    have "bit (of_nat j :: 32 word) n \<Longrightarrow> n < 10"
    proof -
      assume "bit (of_nat j :: 32 word) n"
      then have "bit (take_bit 10 (of_nat j :: 32 word)) n" by (simp only: j)
      then show "n < 10" by (simp add: bit_simps)
    qed
    then show "bit (push_bit 10 (of_nat i :: 32 word) AND of_nat j) n = bit (0 :: 32 word) n"
      by (auto simp add: bit_simps)
  qed
  then have "push_bit 10 (of_nat i :: 32 word) OR of_nat j = push_bit 10 (of_nat i) + of_nat j"
    by (simp add: disjunctive_add_eq_or)
  also have "\<dots> = of_nat (1024 * i + j)"
    by (simp add: push_bit_eq_mult)
  finally show ?thesis .
qed

lemma unat_of_nat32: "n < 2 ^ 32 \<Longrightarrow> unat (of_nat n :: 32 word) = n"
  by (simp add: unat_of_nat)

lemma of_nat32_eq_iff: "n < 2 ^ 32 \<Longrightarrow> (of_nat n :: 32 word) = w \<longleftrightarrow> n = unat w"
  using unat_of_nat32 by force

lemma of_nat32_less_iff:
  "n < 2 ^ 32 \<Longrightarrow> m < 2 ^ 32 \<Longrightarrow> (of_nat n :: 32 word) < of_nat m \<longleftrightarrow> n < m"
  by (simp add: word_less_nat_alt unat_of_nat32)

lemma drop_bit_of_nat32:
  assumes "n < 2 ^ 32"
  shows "drop_bit 10 (of_nat n :: 32 word) = of_nat (n div 1024)"
proof -
  have "unat (drop_bit 10 (of_nat n :: 32 word)) = n div 1024"
    using assms by (simp add: unat_drop_bit_eq drop_bit_eq_div unat_div unat_of_nat32)
  moreover have "unat (of_nat (n div 1024) :: 32 word) = n div 1024"
    using assms by (simp add: unat_of_nat32 le_less_trans[OF div_le_dividend])
  ultimately show ?thesis by (simp add: word_unat_eq_iff)
qed

lemma dup_pages_append:
  "dup_pages envid (xs @ ys) s =
     (case dup_pages envid xs s of Inl e \<Rightarrow> Inl e | Inr (u, s') \<Rightarrow> dup_pages envid ys s')"
  by (induction xs arbitrary: s) (auto split: sum.splits)

lemma page_insert_keeps_presence:
  assumes e: "envs s' = (envs s)(x := page_insert (envs s x) q pte)"
    and c: "curenv s' = curenv s"
    and p: "pte AND PTE_P \<noteq> 0"
    and m: "x = curenv s \<longrightarrow> uvpt s q AND PTE_P \<noteq> 0"
  shows "(uvpt s' p AND PTE_P \<noteq> 0) = (uvpt s p AND PTE_P \<noteq> 0)" and "uvpd s' i = uvpd s i"
proof -
  show "(uvpt s' p AND PTE_P \<noteq> 0) = (uvpt s p AND PTE_P \<noteq> 0)"
    using e c p m by (auto simp add: uvpt_def pgdir_walk_page_insert)
  show "uvpd s' i = uvpd s i"
  proof (cases "x = curenv s")
    case False
    with e c show ?thesis by (simp add: uvpd_def)
  next
    case True
    with m have "pgdir_walk (envs s x) q AND PTE_P \<noteq> 0" by (simp add: uvpt_def)
    then have "env_pgdir (envs s x) (drop_bit 10 q) AND PTE_P \<noteq> 0"
      by (auto simp add: pgdir_walk_def split: if_splits)
    then have "env_pgdir (page_insert (envs s x) q pte) = env_pgdir (envs s x)"
      by (simp add: page_insert_def)
    with e c True show ?thesis by (simp add: uvpd_def)
  qed
qed

lemma duppage_keeps_presence:
  assumes run: "duppage envid pn s = Inr (r, s')"
    and pn: "pn < 2 ^ 20"
    and m: "uvpt s pn AND PTE_P \<noteq> 0"
  shows "curenv s' = curenv s \<and> (\<forall>p. (uvpt s' p AND PTE_P \<noteq> 0) = (uvpt s p AND PTE_P \<noteq> 0)) \<and>
         (\<forall>i. uvpd s' i = uvpd s i)"
proof -
  have q: "PGNUM (pn * PGSIZE) = pn" using pn by (rule PGNUM_page)
  show ?thesis
  proof (cases "uvpt s pn AND PTE_COW \<noteq> 0 \<or> uvpt s pn AND PTE_W \<noteq> 0")
    case True
    from duppage_cow_run[OF run True] obtain r1 s1 r2 where
      m1: "sys_page_map (sys_getenvid s) (pn * PGSIZE) envid (pn * PGSIZE)
             (PTE_P OR PTE_U OR PTE_COW) s = (r1, s1)" "\<not> r1 < 0"
      and m2: "sys_page_map (sys_getenvid s) (pn * PGSIZE) (sys_getenvid s) (pn * PGSIZE)
             (PTE_P OR PTE_U OR PTE_COW) s1 = (r2, s')" "\<not> r2 < 0"
      by blast
    from m1 obtain pte1 where
      e1: "envs s1 = (envs s)(ENVX envid :=
             page_insert (envs s (ENVX envid)) (PGNUM (pn * PGSIZE)) pte1)"
      and c1: "curenv s1 = curenv s" and p1: "pte1 AND PTE_P \<noteq> 0"
      by (auto elim!: sys_page_map_ok)
    note k1 = page_insert_keeps_presence[OF e1[unfolded q] c1 p1]
    from m2 obtain pte2 where
      e2: "envs s' = (envs s1)(ENVX (sys_getenvid s) :=
             page_insert (envs s1 (ENVX (sys_getenvid s))) (PGNUM (pn * PGSIZE)) pte2)"
      and c2: "curenv s' = curenv s1" and p2: "pte2 AND PTE_P \<noteq> 0"
      by (auto elim!: sys_page_map_ok)
    have m': "uvpt s1 pn AND PTE_P \<noteq> 0" using k1(1)[of pn] m by simp
    note k2 = page_insert_keeps_presence[OF e2[unfolded q] c2 p2]
    show ?thesis using k1 k2 m m' c1 c2 by simp
  next
    case False
    then have nc: "uvpt s pn AND PTE_COW = 0" and nw: "uvpt s pn AND PTE_W = 0" by simp_all
    from duppage_ro_run[OF run nc nw] obtain r1 where
      m1: "sys_page_map (sys_getenvid s) (pn * PGSIZE) envid (pn * PGSIZE)
             (PTE_P OR PTE_U) s = (r1, s')" "\<not> r1 < 0"
      by blast
    from m1 obtain pte1 where
      e1: "envs s' = (envs s)(ENVX envid :=
             page_insert (envs s (ENVX envid)) (PGNUM (pn * PGSIZE)) pte1)"
      and c1: "curenv s' = curenv s" and p1: "pte1 AND PTE_P \<noteq> 0"
      by (auto elim!: sys_page_map_ok)
    note k1 = page_insert_keeps_presence[OF e1[unfolded q] c1 p1]
    show ?thesis using k1 m c1 by simp
  qed
qed

lemma pte_pages_cong:
  assumes "\<forall>p. (uvpt s' p AND PTE_P \<noteq> 0) = (uvpt s p AND PTE_P \<noteq> 0)"
  shows "pte_pages s' i = pte_pages s i"
  using assms by (simp add: pte_pages_def)

lemma NPTENTRIES_nat: "unat NPTENTRIES = 1024" "NPTENTRIES = of_nat 1024"
  by (simp_all add: NPTENTRIES_def)

lemma PDX_UTOP_nat: "unat (PDX UTOP) = 955" "PDX UTOP = of_nat 955"
  by (simp_all add: PDX_def UTOP_def)

lemma fork_pte_loop_from:
  assumes "n \<le> 1024" and "i < 1024"
  shows "fork_pte_loop envid (of_nat i) (of_nat n) s =
     dup_pages envid
       (filter (\<lambda>pn. pn \<noteq> PGNUM (UXSTACKTOP - PGSIZE) \<and> uvpt s pn AND PTE_P \<noteq> 0)
          (map (\<lambda>j. push_bit 10 (of_nat i) OR of_nat j) [n..<1024])) s"
  using assms(1)
proof (induction "1024 - n" arbitrary: n s)
  case 0
  then have n: "n = 1024" by simp
  have "\<not> (of_nat n :: 32 word) < NPTENTRIES" by (simp add: n NPTENTRIES_def)
  then show ?case
    by (subst fork_pte_loop.simps) (simp add: n)
next
  case (Suc k)
  then have n: "n < 1024" by simp
  have "(of_nat n :: 32 word) < of_nat 1024"
    using n by (subst of_nat32_less_iff) simp_all
  then have lt: "(of_nat n :: 32 word) < NPTENTRIES"
    by (simp add: NPTENTRIES_def)
  have nx: "(of_nat n :: 32 word) + 1 = of_nat (Suc n)" by simp
  have up: "[n..<1024] = n # [Suc n..<1024]" using n by (simp add: upt_conv_Cons)
  define pn :: "32 word" where "pn = push_bit 10 (of_nat i) OR of_nat n"
  have "pn = of_nat (1024 * i + n)" unfolding pn_def using n by (rule pgno_of_nat)
  moreover have "(of_nat (1024 * i + n) :: 32 word) < of_nat (2 ^ 20)"
    using n assms(2) by (subst of_nat32_less_iff) simp_all
  ultimately have small: "pn < 2 ^ 20" by simp
  have IH: "fork_pte_loop envid (of_nat i) (of_nat (Suc n)) t =
     dup_pages envid
       (filter (\<lambda>pn. pn \<noteq> PGNUM (UXSTACKTOP - PGSIZE) \<and> uvpt t pn AND PTE_P \<noteq> 0)
          (map (\<lambda>j. push_bit 10 (of_nat i) OR of_nat j) [Suc n..<1024])) t" for t
    using Suc.hyps(1)[of "Suc n" t] Suc.hyps(2) n by simp
  have IH': "fork_pte_loop envid (of_nat i) (1 + of_nat n) t =
     dup_pages envid
       (filter (\<lambda>pn. pn \<noteq> PGNUM (UXSTACKTOP - PGSIZE) \<and> uvpt t pn AND PTE_P \<noteq> 0)
          (map (\<lambda>j. push_bit 10 (of_nat i) OR of_nat j) [Suc n..<1024])) t" for t
    using IH[of t] by simp
  have IH'': "fork_pte_loop envid (of_nat i) (of_nat n + 1) t =
     dup_pages envid
       (filter (\<lambda>pn. pn \<noteq> PGNUM (UXSTACKTOP - PGSIZE) \<and> uvpt t pn AND PTE_P \<noteq> 0)
          (map (\<lambda>j. push_bit 10 (of_nat i) OR of_nat j) [Suc n..<1024])) t" for t
    using IH[of t] by (simp add: add.commute)
  show ?case
  proof (cases "pn = PGNUM (UXSTACKTOP - PGSIZE)")
    case True
    then show ?thesis
      by (subst fork_pte_loop.simps) (simp add: lt up IH' IH'' pn_def[symmetric])
  next
    case nux: False
    show ?thesis
    proof (cases "uvpt s pn AND PTE_P \<noteq> 0")
      case False
      with nux show ?thesis
        by (subst fork_pte_loop.simps) (simp add: lt up IH' IH'' pn_def[symmetric])
    next
      case True
      have "(case duppage envid pn s of Inl e \<Rightarrow> Inl e
             | Inr (r, s') \<Rightarrow> fork_pte_loop envid (of_nat i) (of_nat n + 1) s') =
            (case duppage envid pn s of Inl e \<Rightarrow> Inl e
             | Inr (r, s') \<Rightarrow> dup_pages envid
                 (filter (\<lambda>pn. pn \<noteq> PGNUM (UXSTACKTOP - PGSIZE) \<and> uvpt s pn AND PTE_P \<noteq> 0)
                    (map (\<lambda>j. push_bit 10 (of_nat i) OR of_nat j) [Suc n..<1024])) s')"
      proof (cases "duppage envid pn s")
        case (Inl e)
        then show ?thesis by simp
      next
        case (Inr b)
        obtain r s' where b: "b = (r, s')" by (cases b)
        from duppage_keeps_presence[OF Inr[unfolded b] small True]
        have "\<forall>p. (uvpt s' p AND PTE_P \<noteq> 0) = (uvpt s p AND PTE_P \<noteq> 0)" by simp
        then show ?thesis by (simp add: Inr b IH' IH'')
      qed
      with nux True show ?thesis
        by (subst fork_pte_loop.simps) (simp add: lt up pn_def[symmetric])
    qed
  qed
qed

lemma fork_pte_loop_pages:
  assumes "i < 1024"
  shows "fork_pte_loop envid (of_nat i) 0 s = dup_pages envid (pte_pages s (of_nat i)) s"
  using fork_pte_loop_from[OF _ assms, of 0 envid s] by (simp add: pte_pages_def NPTENTRIES_nat)

lemma pte_pages_small:
  assumes "i < 1024" and "pn \<in> set (pte_pages s (of_nat i))"
  shows "pn < 2 ^ 20 \<and> uvpt s pn AND PTE_P \<noteq> 0"
proof -
  from assms(2) obtain j where j: "j < 1024" and pn: "pn = push_bit 10 (of_nat i) OR of_nat j"
    and m: "uvpt s pn AND PTE_P \<noteq> 0"
    by (auto simp add: pte_pages_def NPTENTRIES_nat)
  have "pn = of_nat (1024 * i + j)" unfolding pn using j by (rule pgno_of_nat)
  moreover have "(of_nat (1024 * i + j) :: 32 word) < of_nat (2 ^ 20)"
    using j assms(1) by (subst of_nat32_less_iff) simp_all
  ultimately have "pn < 2 ^ 20" by simp
  with m show ?thesis by simp
qed

lemma dup_pages_keeps_presence:
  assumes "dup_pages envid pns s = Inr (u, s')"
    and "\<forall>pn\<in>set pns. pn < 2 ^ 20 \<and> uvpt s pn AND PTE_P \<noteq> 0"
  shows "curenv s' = curenv s \<and> (\<forall>p. (uvpt s' p AND PTE_P \<noteq> 0) = (uvpt s p AND PTE_P \<noteq> 0)) \<and>
         (\<forall>i. uvpd s' i = uvpd s i)"
  using assms
proof (induction pns arbitrary: s)
  case Nil
  then show ?case by simp
next
  case (Cons pn pns)
  from Cons.prems(1) obtain r s1 where
    d: "duppage envid pn s = Inr (r, s1)" and rest: "dup_pages envid pns s1 = Inr (u, s')"
    by (auto split: sum.splits)
  from Cons.prems(2) have pn: "pn < 2 ^ 20" "uvpt s pn AND PTE_P \<noteq> 0" by simp_all
  note k = duppage_keeps_presence[OF d pn]
  have "\<forall>pn\<in>set pns. pn < 2 ^ 20 \<and> uvpt s1 pn AND PTE_P \<noteq> 0"
    using Cons.prems(2) k by simp
  from Cons.IH[OF rest this] k show ?case by simp
qed

lemma fork_pages_cong:
  assumes "\<forall>p. (uvpt s' p AND PTE_P \<noteq> 0) = (uvpt s p AND PTE_P \<noteq> 0)" and "\<forall>i. uvpd s' i = uvpd s i"
  shows "concat (map (pte_pages s') (filter (\<lambda>i. uvpd s' i AND PTE_P \<noteq> 0) is)) =
         concat (map (pte_pages s) (filter (\<lambda>i. uvpd s i AND PTE_P \<noteq> 0) is))"
proof -
  have "pte_pages s' = pte_pages s"
    using assms(1) by (simp add: pte_pages_def fun_eq_iff)
  with assms(2) show ?thesis by simp
qed

lemma fork_pde_loop_from:
  assumes "n \<le> 955"
  shows "fork_pde_loop envid (of_nat n) s =
     dup_pages envid
       (concat (map (pte_pages s)
          (filter (\<lambda>i. uvpd s i AND PTE_P \<noteq> 0) (map of_nat [n..<955])))) s"
  using assms
proof (induction "955 - n" arbitrary: n s)
  case 0
  then have n: "n = 955" by simp
  have "\<not> (of_nat n :: 32 word) < PDX UTOP" by (simp add: n PDX_def UTOP_def)
  then show ?case
    by (subst fork_pde_loop.simps) (simp add: n)
next
  case (Suc k)
  then have n: "n < 955" by simp
  have "(of_nat n :: 32 word) < of_nat 955"
    using n by (subst of_nat32_less_iff) simp_all
  then have lt: "(of_nat n :: 32 word) < PDX UTOP"
    by (simp add: PDX_def UTOP_def)
  have up: "[n..<955] = n # [Suc n..<955]" using n by (simp add: upt_conv_Cons)
  have IH: "fork_pde_loop envid (of_nat (Suc n)) t =
     dup_pages envid
       (concat (map (pte_pages t)
          (filter (\<lambda>i. uvpd t i AND PTE_P \<noteq> 0) (map of_nat [Suc n..<955])))) t" for t
    using Suc.hyps(1)[of "Suc n" t] Suc.hyps(2) n by simp
  have IH': "fork_pde_loop envid (1 + of_nat n) t =
     dup_pages envid
       (concat (map (pte_pages t)
          (filter (\<lambda>i. uvpd t i AND PTE_P \<noteq> 0) (map of_nat [Suc n..<955])))) t" for t
    using IH[of t] by simp
  have IH'': "fork_pde_loop envid (of_nat n + 1) t =
     dup_pages envid
       (concat (map (pte_pages t)
          (filter (\<lambda>i. uvpd t i AND PTE_P \<noteq> 0) (map of_nat [Suc n..<955])))) t" for t
    using IH[of t] by (simp add: add.commute)
  show ?case
  proof (cases "uvpd s (of_nat n) AND PTE_P = 0")
    case True
    then show ?thesis
      by (subst fork_pde_loop.simps) (simp add: lt up IH' IH'')
  next
    case False
    have i: "n < 1024" using n by simp
    have inner: "fork_pte_loop envid (of_nat n) 0 s = dup_pages envid (pte_pages s (of_nat n)) s"
      using i by (rule fork_pte_loop_pages)
    have "(case dup_pages envid (pte_pages s (of_nat n)) s of Inl e \<Rightarrow> Inl e
           | Inr (u, s') \<Rightarrow> fork_pde_loop envid (of_nat n + 1) s') =
          (case dup_pages envid (pte_pages s (of_nat n)) s of Inl e \<Rightarrow> Inl e
           | Inr (u, s') \<Rightarrow> dup_pages envid
               (concat (map (pte_pages s)
                  (filter (\<lambda>i. uvpd s i AND PTE_P \<noteq> 0) (map of_nat [Suc n..<955])))) s')"
    proof (cases "dup_pages envid (pte_pages s (of_nat n)) s")
      case (Inl e)
      then show ?thesis by simp
    next
      case (Inr b)
      obtain u s' where b: "b = (u, s')" by (cases b)
      have "\<forall>pn\<in>set (pte_pages s (of_nat n)). pn < 2 ^ 20 \<and> uvpt s pn AND PTE_P \<noteq> 0"
        using pte_pages_small[OF i] by blast
      from dup_pages_keeps_presence[OF Inr[unfolded b] this]
      have "\<forall>p. (uvpt s' p AND PTE_P \<noteq> 0) = (uvpt s p AND PTE_P \<noteq> 0)" "\<forall>i. uvpd s' i = uvpd s i"
        by simp_all
      from fork_pages_cong[OF this] show ?thesis
        by (simp add: Inr b IH'')
    qed
    with False show ?thesis
      by (subst fork_pde_loop.simps) (simp add: lt up inner dup_pages_append)
  qed
qed

lemma fork_pde_loop_pages: "fork_pde_loop envid 0 s = dup_pages envid (fork_pages s) s"
  using fork_pde_loop_from[of 0 envid s] by (simp add: fork_pages_def PDX_UTOP_nat)

lemma block_of_nat:
  "map (\<lambda>j. push_bit 10 (of_nat i) OR (of_nat j :: 32 word)) [0..<1024] =
   map of_nat [1024 * i..<1024 * i + 1024]"
proof -
  have "map (\<lambda>j. push_bit 10 (of_nat i) OR (of_nat j :: 32 word)) [0..<1024] =
        map (\<lambda>j. of_nat (j + 1024 * i)) [0..<1024]"
    by (rule map_cong) (simp_all add: pgno_of_nat add.commute)
  also have "\<dots> = map of_nat (map (\<lambda>j. j + 1024 * i) [0..<1024])"
    by (simp add: comp_def)
  also have "\<dots> = map of_nat [1024 * i..<1024 * i + 1024]"
    by (simp only: map_add_upt add.commute)
  finally show ?thesis .
qed

lemma block_pde:
  assumes "i < 1024" and "n \<in> set [1024 * i..<1024 * i + 1024]"
  shows "drop_bit 10 (of_nat n :: 32 word) = of_nat i"
proof -
  from assms have "n < 2 ^ 32" and "n div 1024 = i" by auto
  then show ?thesis by (simp add: drop_bit_of_nat32)
qed

lemma fork_pages_upto:
  assumes "m \<le> 1024"
  shows "concat (map (pte_pages s) (filter (\<lambda>i. uvpd s i AND PTE_P \<noteq> 0) (map of_nat [0..<m]))) =
     filter (\<lambda>pn. uvpd s (drop_bit 10 pn) AND PTE_P \<noteq> 0 \<and> uvpt s pn AND PTE_P \<noteq> 0 \<and>
                  pn \<noteq> PGNUM (UXSTACKTOP - PGSIZE))
       (map of_nat [0..<1024 * m])"
  using assms
proof (induction m)
  case 0
  then show ?case by simp
next
  case (Suc m)
  then have m: "m < 1024" by simp
  have "1024 * Suc m = 1024 * m + 1024" by simp
  then have split: "[0..<1024 * Suc m] = [0..<1024 * m] @ [1024 * m..<1024 * m + 1024]"
    using upt_add_eq_append[of 0 "1024 * m" 1024] by (simp only: le0)
  have blk: "filter (\<lambda>pn. uvpd s (drop_bit 10 pn) AND PTE_P \<noteq> 0 \<and> uvpt s pn AND PTE_P \<noteq> 0 \<and>
                  pn \<noteq> PGNUM (UXSTACKTOP - PGSIZE))
       (map of_nat [1024 * m..<1024 * m + 1024]) =
     (if uvpd s (of_nat m) AND PTE_P \<noteq> 0 then pte_pages s (of_nat m) else [])"
  proof -
    have "filter (\<lambda>pn. uvpd s (drop_bit 10 pn) AND PTE_P \<noteq> 0 \<and> uvpt s pn AND PTE_P \<noteq> 0 \<and>
                  pn \<noteq> PGNUM (UXSTACKTOP - PGSIZE))
            (map of_nat [1024 * m..<1024 * m + 1024]) =
          filter (\<lambda>pn. uvpd s (of_nat m) AND PTE_P \<noteq> 0 \<and> uvpt s pn AND PTE_P \<noteq> 0 \<and>
                  pn \<noteq> PGNUM (UXSTACKTOP - PGSIZE))
            (map of_nat [1024 * m..<1024 * m + 1024])"
      by (rule filter_cong) (auto simp add: block_pde[OF m])
    also have "\<dots> = (if uvpd s (of_nat m) AND PTE_P \<noteq> 0 then pte_pages s (of_nat m) else [])"
      by (auto simp add: pte_pages_def NPTENTRIES_nat block_of_nat intro: filter_cong)
    finally show ?thesis .
  qed
  have "concat (map (pte_pages s)
            (filter (\<lambda>i. uvpd s i AND PTE_P \<noteq> 0) (map of_nat [0..<Suc m]))) =
        concat (map (pte_pages s) (filter (\<lambda>i. uvpd s i AND PTE_P \<noteq> 0) (map of_nat [0..<m]))) @
        (if uvpd s (of_nat m) AND PTE_P \<noteq> 0 then pte_pages s (of_nat m) else [])"
    by simp
  also have "\<dots> =
      filter (\<lambda>pn. uvpd s (drop_bit 10 pn) AND PTE_P \<noteq> 0 \<and> uvpt s pn AND PTE_P \<noteq> 0 \<and>
                  pn \<noteq> PGNUM (UXSTACKTOP - PGSIZE))
        (map of_nat [0..<1024 * m]) @
      filter (\<lambda>pn. uvpd s (drop_bit 10 pn) AND PTE_P \<noteq> 0 \<and> uvpt s pn AND PTE_P \<noteq> 0 \<and>
                  pn \<noteq> PGNUM (UXSTACKTOP - PGSIZE))
        (map of_nat [1024 * m..<1024 * m + 1024])"
    using Suc.IH m by (simp only: blk)
  also have "\<dots> =
      filter (\<lambda>pn. uvpd s (drop_bit 10 pn) AND PTE_P \<noteq> 0 \<and> uvpt s pn AND PTE_P \<noteq> 0 \<and>
                  pn \<noteq> PGNUM (UXSTACKTOP - PGSIZE))
        (map of_nat [0..<1024 * Suc m])"
    by (simp only: split map_append filter_append)
  finally show ?case .
qed

lemma PGNUM_UTOP_nat: "unat (PGNUM UTOP) = 1024 * 955"
  by (simp add: PGNUM_def UTOP_def)

lemma fork_pages_flat:
  "fork_pages s =
     filter (\<lambda>pn. uvpd s (drop_bit 10 pn) AND PTE_P \<noteq> 0 \<and> uvpt s pn AND PTE_P \<noteq> 0 \<and>
                  pn \<noteq> PGNUM (UXSTACKTOP - PGSIZE))
       (map of_nat [0..<unat (PGNUM UTOP)])"
  unfolding fork_pages_def PDX_UTOP_nat(1) PGNUM_UTOP_nat
  by (rule fork_pages_upto) simp

lemma filter_upt_sparse:
  assumes "sorted_wrt (<) ks" and "\<And>n. n \<in> set ks \<longleftrightarrow> n < N \<and> Q n"
  shows "filter Q [0..<N] = (ks :: nat list)"
proof (rule strict_sorted_equal)
  show "sorted_wrt (<) ks" by fact
  show "sorted_wrt (<) (filter Q [0..<N])" by (simp add: sorted_wrt_filter)
  show "set (filter Q [0..<N]) = set ks" using assms(2) by auto
qed


lemma uvpd_demo_state:
  "uvpd demo_state i = (if i = 0x3BA then 7 else if i = 2 then 7 else 0)"
  by (simp add: uvpd_def demos)

lemma fork_pages_demo: "fork_pages demo_state = [0x800, 0x801, 0x802]"
proof -
  let ?C = "\<lambda>pn. uvpd demo_state (drop_bit 10 pn) AND PTE_P \<noteq> 0 \<and>
              uvpt demo_state pn AND PTE_P \<noteq> 0 \<and> pn \<noteq> PGNUM (UXSTACKTOP - PGSIZE)"
  define N where "N = unat (PGNUM UTOP)"
  have N: "N = 977920" by (simp add: N_def cdefs)
  have ux: "PGNUM (UXSTACKTOP - PGSIZE) = 0xEEBFF" by (simp add: cdefs)
  have "filter (?C \<circ> of_nat) [0..<N] = [2048, 2049, 2050]"
  proof (rule filter_upt_sparse)
    show "sorted_wrt (<) [2048, 2049, 2050 :: nat]" by simp
    fix n :: nat
    show "n \<in> set [2048, 2049, 2050] \<longleftrightarrow> n < N \<and> (?C \<circ> of_nat) n"
    proof (cases "n < N")
      case False
      then show ?thesis by (auto simp add: N)
    next
      case True
      then have n32: "n < 2 ^ 32" by (simp add: N)
      note eq = of_nat32_eq_iff[OF n32]
      have d: "drop_bit 10 (of_nat n :: 32 word) = of_nat (n div 1024)"
        using n32 by (rule drop_bit_of_nat32)
      have d32: "n div 1024 < 2 ^ 32" using n32 by (simp add: le_less_trans[OF div_le_dividend])
      note deq = of_nat32_eq_iff[OF d32]
      show ?thesis
        using True
        by (auto simp add: ux uvpt_demo_state uvpd_demo_state eq d deq PTE_P_def)
    qed
  qed
  then have "filter ?C (map of_nat [0..<N]) = map of_nat [2048, 2049, 2050]"
    by (simp only: filter_map)
  then show ?thesis
    unfolding fork_pages_flat N_def[symmetric] by simp
qed

lemma fork_pages_same:
  assumes "uvpt s' = uvpt s" and "uvpd s' = uvpd s"
  shows "fork_pages s' = fork_pages s"
proof -
  have "pte_pages s' = pte_pages s"
    using assms(1) by (simp add: pte_pages_def fun_eq_iff)
  with assms(2) show ?thesis by (simp add: fork_pages_def)
qed

lemma uvpd_demo_forked: "uvpd demo_forked = uvpd demo_state"
  by (rule ext) (simp add: uvpd_def demos2)

lemma fork_pages_demo_forked: "fork_pages demo_forked = [0x800, 0x801, 0x802]"
  using fork_pages_same[OF uvpt_demo_forked uvpd_demo_forked] fork_pages_demo by simp


section \<open>The system calls of a run\<close>

lemma final_simps [simp]: "final (Inl (e, s)) = s" "final (Inr (v, s)) = s"
  by (simp_all add: final_def)

lemma final_Inl: "final (Inl e) = snd e"
  by (cases e) simp

lemma final_panic [simp]: "final (panic msg s) = s"
  by (simp add: panic_def)

lemma calls_since_append [simp]: "calls_since s (s'\<lparr>syslog := syslog s @ evs\<rparr>) = evs"
  by (simp add: calls_since_def)

lemma calls_since_eq: "syslog s' = syslog s @ evs \<Longrightarrow> calls_since s s' = evs"
  by (simp add: calls_since_def)

lemma walk_step_refl [simp]: "walk_step s s"
  by (simp add: walk_step_def calls_since_def)

lemma walk_step_log:
  assumes "walk_step s s'"
  shows "syslog s' = syslog s @ calls_since s s'"
proof -
  from assms have "take (length (syslog s)) (syslog s') = syslog s"
    by (simp add: walk_step_def)
  then show ?thesis
    unfolding calls_since_def by (metis append_take_drop_id)
qed

lemma walk_step_trans:
  assumes "walk_step s s1" and "walk_step s1 s2"
  shows "walk_step s s2"
proof -
  note l1 = walk_step_log[OF assms(1)] and l2 = walk_step_log[OF assms(2)]
  have l: "syslog s2 = syslog s @ (calls_since s s1 @ calls_since s1 s2)"
    using l1 l2 by simp
  have c: "calls_since s s2 = calls_since s s1 @ calls_since s1 s2"
    using l by (rule calls_since_eq)
  have t: "take (length (syslog s)) (syslog s2) = syslog s"
    by (simp add: l)
  show ?thesis
    using assms t unfolding walk_step_def c by simp
qed

lemma sys_page_map_walk_step:
  assumes "sys_page_map a va b vb perm s = (r, s')"
    and "perm AND PTE_W = 0 \<or> perm AND PTE_COW = 0"
  shows "walk_step s s'"
proof (cases "r < 0")
  case True
  from sys_page_map_refused[OF assms(1) True] assms(2) show ?thesis
    by (simp add: walk_step_def)
next
  case False
  from assms(1) False have
    e: "envs s' = (envs s)(ENVX b := page_insert (envs s (ENVX b)) (PGNUM vb)
        (mk_pte (PTE_ADDR (pgdir_walk (envs s (ENVX a)) (PGNUM va))) perm))"
    and o: "phys s' = phys s" "curenv s' = curenv s" "page_free_list s' = page_free_list s"
      "env_free_list s' = env_free_list s"
    and l: "syslog s' = syslog s @ [(SYS_page_map a va b vb perm, 0)]"
    by (auto elim: sys_page_map_ok)
  show ?thesis
    using assms(2) o by (simp add: walk_step_def e l calls_since_eq[OF l])
qed

lemma perm_consts_excl [simp]:
  "(PTE_P OR PTE_U OR PTE_COW) AND PTE_W = 0" "(PTE_P OR PTE_U) AND PTE_W = 0"
  "(PTE_P OR PTE_U) AND PTE_COW = 0" "(PTE_P OR PTE_W OR PTE_U) AND PTE_COW = 0"
  by (simp_all add: cdefs)

lemma duppage_walk_step: "walk_step s (final (duppage envid pn s))"
proof -
  define me where "me = sys_getenvid s"
  define va where "va = pn * PGSIZE"
  show ?thesis
  proof (cases "uvpt s pn AND PTE_COW \<noteq> 0 \<or> uvpt s pn AND PTE_W \<noteq> 0")
    case False
    obtain r1 s1 where m1: "sys_page_map me va envid va (PTE_P OR PTE_U) s = (r1, s1)"
      by (cases "sys_page_map me va envid va (PTE_P OR PTE_U) s")
    have w1: "walk_step s s1" using m1 by (rule sys_page_map_walk_step) simp
    have "final (duppage envid pn s) = s1"
      using False m1
      by (simp add: duppage_def Let_def me_def[symmetric] va_def[symmetric])
    with w1 show ?thesis by simp
  next
    case True
    obtain r1 s1 where
      m1: "sys_page_map me va envid va (PTE_P OR PTE_U OR PTE_COW) s = (r1, s1)"
      by (cases "sys_page_map me va envid va (PTE_P OR PTE_U OR PTE_COW) s")
    obtain r2 s2 where
      m2: "sys_page_map me va me va (PTE_P OR PTE_U OR PTE_COW) s1 = (r2, s2)"
      by (cases "sys_page_map me va me va (PTE_P OR PTE_U OR PTE_COW) s1")
    have w1: "walk_step s s1" using m1 by (rule sys_page_map_walk_step) simp
    have w2: "walk_step s1 s2" using m2 by (rule sys_page_map_walk_step) simp
    have "final (duppage envid pn s) = (if r1 < 0 then s1 else s2)"
      using True m1 m2
      by (auto simp add: duppage_def Let_def me_def[symmetric] va_def[symmetric])
    with w1 walk_step_trans[OF w1 w2] show ?thesis by simp
  qed
qed

lemma dup_pages_walk_step: "walk_step s (final (dup_pages envid pns s))"
proof (induction pns arbitrary: s)
  case Nil
  show ?case by simp
next
  case (Cons pn pns)
  show ?case
  proof (cases "duppage envid pn s")
    case (Inl e)
    with duppage_walk_step[of s envid pn] show ?thesis by (simp add: final_Inl)
  next
    case (Inr b)
    obtain r s1 where b: "b = (r, s1)" by (cases b)
    from duppage_walk_step[of s envid pn] have "walk_step s s1" by (simp add: Inr b)
    from walk_step_trans[OF this Cons.IH[of s1]] show ?thesis by (simp add: Inr b)
  qed
qed

lemma fork_pde_loop_walk_step: "walk_step s (final (fork_pde_loop envid 0 s))"
  by (simp add: fork_pde_loop_pages dup_pages_walk_step)

subsection \<open>Exclusive permission words\<close>

lemma excl_step_refl [simp]: "excl_step s s"
  by (simp add: excl_step_def calls_since_def)

lemma excl_step_log:
  assumes "excl_step s s'"
  shows "syslog s' = syslog s @ calls_since s s'"
proof -
  from assms have "take (length (syslog s)) (syslog s') = syslog s"
    by (simp add: excl_step_def)
  then show ?thesis
    unfolding calls_since_def by (metis append_take_drop_id)
qed

lemma excl_step_trans:
  assumes "excl_step s s1" and "excl_step s1 s2"
  shows "excl_step s s2"
proof -
  note l1 = excl_step_log[OF assms(1)] and l2 = excl_step_log[OF assms(2)]
  have l: "syslog s2 = syslog s @ (calls_since s s1 @ calls_since s1 s2)"
    using l1 l2 by simp
  have c: "calls_since s s2 = calls_since s s1 @ calls_since s1 s2"
    using l by (rule calls_since_eq)
  have t: "take (length (syslog s)) (syslog s2) = syslog s"
    by (simp add: l)
  show ?thesis
    using assms t unfolding excl_step_def c by simp
qed

lemma excl_stepI:
  assumes "syslog s' = syslog s @ evs" and "list_all (\<lambda>ev. excl_perm (fst ev)) evs"
    and "cow_excl_state s \<Longrightarrow> cow_excl_state s'"
  shows "excl_step s s'"
  using assms by (simp add: excl_step_def calls_since_eq[OF assms(1)])

lemma mk_pte_excl:
  assumes "perm_ok perm" and "perm AND PTE_W = 0 \<or> perm AND PTE_COW = 0"
  shows "mk_pte f perm AND PTE_W = 0 \<or> mk_pte f perm AND PTE_COW = 0"
proof -
  have l: "take_bit 12 perm = perm" using assms(1) by (rule perm_ok_low12)
  have w: "mk_pte f perm AND PTE_W = (perm OR PTE_P) AND PTE_W"
    by (rule mk_pte_AND) (simp_all add: l)
  have c: "mk_pte f perm AND PTE_COW = (perm OR PTE_P) AND PTE_COW"
    by (rule mk_pte_AND) (simp_all add: l)
  have pw: "PTE_P AND PTE_W = 0" and pc: "PTE_P AND PTE_COW = 0" by (simp_all add: cdefs)
  from assms(2) show ?thesis
    unfolding w c by (auto simp add: bit.conj_disj_distrib2 pw pc)
qed

lemma cow_excl_page_insert:
  assumes "cow_excl_state s" and "envs s' = (envs s)(x := page_insert (envs s x) pn pte)"
    and "pte AND PTE_W = 0 \<or> pte AND PTE_COW = 0"
  shows "cow_excl_state s'"
  using assms unfolding cow_excl_state_def
  by (auto simp add: pgdir_walk_page_insert)

lemma cow_excl_page_remove:
  assumes "cow_excl_state s" and "envs s' = (envs s)(x := page_remove (envs s x) pn)"
  shows "cow_excl_state s'"
  using assms unfolding cow_excl_state_def
  by (auto simp add: pgdir_walk_page_remove)

lemma cow_excl_cong:
  assumes "cow_excl_state s" and "\<And>x pn. pgdir_walk (envs s' x) pn = pgdir_walk (envs s x) pn"
  shows "cow_excl_state s'"
  using assms unfolding cow_excl_state_def by simp

lemma sys_page_map_excl_step:
  assumes "sys_page_map a va b vb perm s = (r, s')"
    and x: "perm AND PTE_W = 0 \<or> perm AND PTE_COW = 0"
  shows "excl_step s s'"
proof (cases "r < 0")
  case True
  from sys_page_map_refused[OF assms(1) True] x show ?thesis
    by (simp add: excl_step_def cow_excl_state_def)
next
  case False
  from assms(1) False have
    e: "envs s' = (envs s)(ENVX b := page_insert (envs s (ENVX b)) (PGNUM vb)
        (mk_pte (PTE_ADDR (pgdir_walk (envs s (ENVX a)) (PGNUM va))) perm))"
    and k: "perm_ok perm"
    and l: "syslog s' = syslog s @ [(SYS_page_map a va b vb perm, 0)]"
    by (auto elim: sys_page_map_ok)
  show ?thesis
    using l
  proof (rule excl_stepI)
    show "list_all (\<lambda>ev. excl_perm (fst ev)) [(SYS_page_map a va b vb perm, 0)]"
      using x by simp
    assume "cow_excl_state s"
    then show "cow_excl_state s'"
      using e by (rule cow_excl_page_insert) (rule mk_pte_excl[OF k x])
  qed
qed

lemma sys_page_alloc_excl_step:
  assumes "sys_page_alloc envid va perm s = (r, s')"
    and x: "perm AND PTE_W = 0 \<or> perm AND PTE_COW = 0"
  shows "excl_step s s'"
proof (cases "r < 0")
  case True
  from sys_page_alloc_refused[OF assms(1) True] x show ?thesis
    by (simp add: excl_step_def cow_excl_state_def)
next
  case False
  from assms(1) False obtain f where
    e: "envs s' = (envs s)(ENVX envid := page_insert (envs s (ENVX envid)) (PGNUM va)
          (mk_pte f perm))"
    and k: "perm_ok perm"
    and l: "syslog s' = syslog s @ [(SYS_page_alloc envid va perm, 0)]"
    by (auto elim: sys_page_alloc_ok)
  show ?thesis
    using l
  proof (rule excl_stepI)
    show "list_all (\<lambda>ev. excl_perm (fst ev)) [(SYS_page_alloc envid va perm, 0)]"
      using x by simp
    assume "cow_excl_state s"
    then show "cow_excl_state s'"
      using e by (rule cow_excl_page_insert) (rule mk_pte_excl[OF k x])
  qed
qed

lemma sys_page_unmap_excl_step:
  assumes "sys_page_unmap envid va s = (r, s')"
  shows "excl_step s s'"
proof (cases "r < 0")
  case True
  from sys_page_unmap_refused[OF assms(1) True] show ?thesis
    by (simp add: excl_step_def cow_excl_state_def)
next
  case False
  from assms(1) False have
    e: "envs s' = (envs s)(ENVX envid := page_remove (envs s (ENVX envid)) (PGNUM va))"
    and l: "syslog s' = syslog s @ [(SYS_page_unmap envid va, 0)]"
    by (auto elim: sys_page_unmap_ok)
  show ?thesis
    using l
  proof (rule excl_stepI)
    show "list_all (\<lambda>ev. excl_perm (fst ev)) [(SYS_page_unmap envid va, 0)]" by simp
    assume "cow_excl_state s"
    then show "cow_excl_state s'" using e by (rule cow_excl_page_remove)
  qed
qed

lemma sys_env_set_pgfault_upcall_excl_step:
  assumes "sys_env_set_pgfault_upcall envid func s = (r, s')"
  shows "excl_step s s'"
proof (cases "r < 0")
  case True
  from sys_env_set_pgfault_upcall_refused[OF assms(1) True] show ?thesis
    by (simp add: excl_step_def cow_excl_state_def)
next
  case False
  from assms(1) False have
    e: "envs s' = (envs s)(ENVX envid := (envs s (ENVX envid))\<lparr>env_pgfault_upcall := func\<rparr>)"
    and l: "syslog s' = syslog s @ [(SYS_env_set_pgfault_upcall envid func, 0)]"
    by (auto elim: sys_env_set_pgfault_upcall_ok)
  show ?thesis
    using l
  proof (rule excl_stepI)
    show "list_all (\<lambda>ev. excl_perm (fst ev)) [(SYS_env_set_pgfault_upcall envid func, 0)]"
      by simp
    assume "cow_excl_state s"
    then show "cow_excl_state s'"
      by (rule cow_excl_cong) (simp add: e pgdir_walk_def)
  qed
qed

lemma sys_env_set_status_excl_step:
  assumes "sys_env_set_status envid st s = (r, s')"
  shows "excl_step s s'"
proof (cases "r < 0")
  case True
  from sys_env_set_status_refused[OF assms(1) True] show ?thesis
    by (simp add: excl_step_def cow_excl_state_def)
next
  case False
  from assms(1) False have
    e: "envs s' = (envs s)(ENVX envid := (envs s (ENVX envid))\<lparr>env_status := st\<rparr>)"
    and l: "syslog s' = syslog s @ [(SYS_env_set_status envid st, 0)]"
    by (auto elim: sys_env_set_status_ok)
  show ?thesis
    using l
  proof (rule excl_stepI)
    show "list_all (\<lambda>ev. excl_perm (fst ev)) [(SYS_env_set_status envid st, 0)]" by simp
    assume "cow_excl_state s"
    then show "cow_excl_state s'"
      by (rule cow_excl_cong) (simp add: e pgdir_walk_def)
  qed
qed

lemma sys_exofork_excl_step:
  assumes "sys_exofork s = (r, s')"
  shows "excl_step s s'"
proof (cases "env_free_list s")
  case Nil
  with assms have "s' = s\<lparr>syslog := syslog s @ [(SYS_exofork, r)]\<rparr>"
    by (auto simp add: sys_exofork_def sysret_def)
  then show ?thesis
    by (simp add: excl_step_def cow_excl_state_def)
next
  case (Cons i rest)
  with assms have l: "syslog s' = syslog s @ [(SYS_exofork, r)]"
    and w: "\<And>x pn. pgdir_walk (envs s' x) pn = (if x = i then 0 else pgdir_walk (envs s x) pn)"
    by (auto simp add: sys_exofork_def sysret_def Let_def pgdir_walk_def)
  show ?thesis
    using l
  proof (rule excl_stepI)
    show "list_all (\<lambda>ev. excl_perm (fst ev)) [(SYS_exofork, r)]" by simp
    assume "cow_excl_state s"
    then show "cow_excl_state s'"
      unfolding cow_excl_state_def by (auto simp add: w)
  qed
qed

subsection \<open>Runs of the user functions\<close>

lemma excl_step_same_tables:
  assumes "syslog s' = syslog s"
    and "\<And>x pn. pgdir_walk (envs s' x) pn = pgdir_walk (envs s x) pn"
  shows "excl_step s s'"
proof (rule excl_stepI[where evs="[]"])
  show "syslog s' = syslog s @ []" using assms(1) by simp
  show "list_all (\<lambda>ev. excl_perm (fst ev)) []" by simp
  assume "cow_excl_state s"
  then show "cow_excl_state s'" using assms(2) by (rule cow_excl_cong)
qed

lemma memmove_page_excl_step: "excl_step s (final (memmove_page dst src s))"
proof -
  have "syslog (final (memmove_page dst src s)) = syslog s @ []"
    and "envs (final (memmove_page dst src s)) = envs s"
    by (simp_all add: memmove_page_def Let_def)
  then show ?thesis
    by (intro excl_step_same_tables) simp_all
qed

lemma pgfault_excl_step: "excl_step s (final (pgfault utf s))"
proof (cases "utf_err utf AND FEC_WR = 0 \<or> uvpt s (PGNUM (utf_fault_va utf)) AND PTE_COW = 0")
  case True
  then show ?thesis by (auto simp add: pgfault_def Let_def)
next
  case guard: False
  define me where "me = sys_getenvid s"
  define va where "va = ROUNDDOWN (utf_fault_va utf) PGSIZE"
  obtain r1 s1 where a: "sys_page_alloc me PFTEMP (PTE_P OR PTE_W OR PTE_U) s = (r1, s1)"
    by (cases "sys_page_alloc me PFTEMP (PTE_P OR PTE_W OR PTE_U) s")
  have e1: "excl_step s s1" using a by (rule sys_page_alloc_excl_step) simp
  show ?thesis
  proof (cases "r1 < 0")
    case True
    with guard a e1 show ?thesis
      by (simp add: pgfault_def Let_def me_def[symmetric])
  next
    case r1: False
    have e2: "excl_step s (final (memmove_page PFTEMP va s1))"
      using e1 memmove_page_excl_step by (rule excl_step_trans)
    show ?thesis
    proof (cases "memmove_page PFTEMP va s1")
      case (Inl e)
      with guard a r1 e2 show ?thesis
        by (simp add: pgfault_def Let_def me_def[symmetric] va_def[symmetric] final_Inl)
    next
      case (Inr b)
      obtain u s2 where b: "b = (u, s2)" by (cases b)
      from e2 have e2': "excl_step s s2" by (simp add: Inr b)
      obtain r3 s3 where um: "sys_page_unmap me va s2 = (r3, s3)"
        by (cases "sys_page_unmap me va s2")
      have e3: "excl_step s s3"
        using e2' sys_page_unmap_excl_step[OF um] by (rule excl_step_trans)
      show ?thesis
      proof (cases "r3 < 0")
        case True
        with guard a r1 Inr b um e3 show ?thesis
          by (simp add: pgfault_def Let_def me_def[symmetric] va_def[symmetric])
      next
        case r3: False
        obtain r4 s4 where
          mp: "sys_page_map me PFTEMP me va (PTE_P OR PTE_W OR PTE_U) s3 = (r4, s4)"
          by (cases "sys_page_map me PFTEMP me va (PTE_P OR PTE_W OR PTE_U) s3")
        have "excl_step s3 s4" using mp by (rule sys_page_map_excl_step) simp
        with e3 have e4: "excl_step s s4" by (rule excl_step_trans)
        from guard a r1 Inr b um r3 mp e4 show ?thesis
          by (simp add: pgfault_def Let_def me_def[symmetric] va_def[symmetric])
      qed
    qed
  qed
qed

lemma duppage_excl_step: "excl_step s (final (duppage envid pn s))"
proof -
  define me where "me = sys_getenvid s"
  define va where "va = pn * PGSIZE"
  show ?thesis
  proof (cases "uvpt s pn AND PTE_COW \<noteq> 0 \<or> uvpt s pn AND PTE_W \<noteq> 0")
    case False
    obtain r1 s1 where m1: "sys_page_map me va envid va (PTE_P OR PTE_U) s = (r1, s1)"
      by (cases "sys_page_map me va envid va (PTE_P OR PTE_U) s")
    have w1: "excl_step s s1" using m1 by (rule sys_page_map_excl_step) simp
    have "final (duppage envid pn s) = s1"
      using False m1
      by (simp add: duppage_def Let_def me_def[symmetric] va_def[symmetric])
    with w1 show ?thesis by simp
  next
    case True
    obtain r1 s1 where
      m1: "sys_page_map me va envid va (PTE_P OR PTE_U OR PTE_COW) s = (r1, s1)"
      by (cases "sys_page_map me va envid va (PTE_P OR PTE_U OR PTE_COW) s")
    obtain r2 s2 where
      m2: "sys_page_map me va me va (PTE_P OR PTE_U OR PTE_COW) s1 = (r2, s2)"
      by (cases "sys_page_map me va me va (PTE_P OR PTE_U OR PTE_COW) s1")
    have w1: "excl_step s s1" using m1 by (rule sys_page_map_excl_step) simp
    have w2: "excl_step s1 s2" using m2 by (rule sys_page_map_excl_step) simp
    have "final (duppage envid pn s) = (if r1 < 0 then s1 else s2)"
      using True m1 m2
      by (auto simp add: duppage_def Let_def me_def[symmetric] va_def[symmetric])
    with w1 excl_step_trans[OF w1 w2] show ?thesis by simp
  qed
qed

lemma dup_pages_excl_step: "excl_step s (final (dup_pages envid pns s))"
proof (induction pns arbitrary: s)
  case Nil
  show ?case by simp
next
  case (Cons pn pns)
  show ?case
  proof (cases "duppage envid pn s")
    case (Inl e)
    with duppage_excl_step[of s envid pn] show ?thesis by (simp add: final_Inl)
  next
    case (Inr b)
    obtain r s1 where b: "b = (r, s1)" by (cases b)
    from duppage_excl_step[of s envid pn] have "excl_step s s1" by (simp add: Inr b)
    from excl_step_trans[OF this Cons.IH[of s1]] show ?thesis by (simp add: Inr b)
  qed
qed

lemma fork_pde_loop_excl_step: "excl_step s (final (fork_pde_loop envid 0 s))"
  by (simp add: fork_pde_loop_pages dup_pages_excl_step)

lemma fork_resume_excl_step: "excl_step s (final (fork_resume envid s))"
proof (cases "envid < 0 \<or> envid = 0")
  case True
  have "excl_step s (s\<lparr>envs := (envs s)
          (curenv s := (envs s (curenv s))\<lparr>u_thisenv := ENVX (sys_getenvid s)\<rparr>)\<rparr>)"
    by (rule excl_step_same_tables) (simp_all add: pgdir_walk_def)
  with True show ?thesis by (auto simp add: fork_resume_def)
next
  case parent: False
  have e1: "excl_step s (final (fork_pde_loop envid 0 s))" by (rule fork_pde_loop_excl_step)
  show ?thesis
  proof (cases "fork_pde_loop envid 0 s")
    case (Inl e)
    with parent e1 show ?thesis by (simp add: fork_resume_def final_Inl)
  next
    case (Inr b)
    obtain u s1 where b: "b = (u, s1)" by (cases b)
    from e1 have e1': "excl_step s s1" by (simp add: Inr b)
    obtain r2 s2 where
      a: "sys_page_alloc envid (UXSTACKTOP - PGSIZE) (PTE_P OR PTE_W OR PTE_U) s1 = (r2, s2)"
      by (cases "sys_page_alloc envid (UXSTACKTOP - PGSIZE) (PTE_P OR PTE_W OR PTE_U) s1")
    have "excl_step s1 s2" using a by (rule sys_page_alloc_excl_step) simp
    with e1' have e2: "excl_step s s2" by (rule excl_step_trans)
    show ?thesis
    proof (cases "r2 < 0")
      case True
      with parent Inr b a e2 show ?thesis by (simp add: fork_resume_def)
    next
      case r2: False
      define upc where "upc = env_pgfault_upcall (envs s2 (u_thisenv (envs s2 (curenv s2))))"
      obtain r3 s3 where up: "sys_env_set_pgfault_upcall envid upc s2 = (r3, s3)"
        by (cases "sys_env_set_pgfault_upcall envid upc s2")
      have e3: "excl_step s s3"
        using e2 sys_env_set_pgfault_upcall_excl_step[OF up] by (rule excl_step_trans)
      show ?thesis
      proof (cases "r3 < 0")
        case True
        with parent Inr b a r2 up e3 show ?thesis
          by (simp add: fork_resume_def upc_def[symmetric])
      next
        case r3: False
        obtain r4 s4 where st: "sys_env_set_status envid ENV_RUNNABLE s3 = (r4, s4)"
          by (cases "sys_env_set_status envid ENV_RUNNABLE s3")
        have e4: "excl_step s s4"
          using e3 sys_env_set_status_excl_step[OF st] by (rule excl_step_trans)
        from parent Inr b a r2 up r3 st e4 show ?thesis
          by (simp add: fork_resume_def upc_def[symmetric])
      qed
    qed
  qed
qed

lemma set_pgfault_handler_excl_step: "excl_step s (final (set_pgfault_handler h s))"
proof (cases "u_pgfault_handler (envs s (curenv s))")
  case (Some h0)
  have "excl_step s (s\<lparr>envs := (envs s)
          (curenv s := (envs s (curenv s))\<lparr>u_pgfault_handler := Some h\<rparr>)\<rparr>)"
    by (rule excl_step_same_tables) (simp_all add: pgdir_walk_def)
  with Some show ?thesis by (simp add: set_pgfault_handler_def Let_def)
next
  case None
  obtain r1 s1 where
    a: "sys_page_alloc (sys_getenvid s) (UXSTACKTOP - PGSIZE) (PTE_P OR PTE_W OR PTE_U) s = (r1, s1)"
    by (cases "sys_page_alloc (sys_getenvid s) (UXSTACKTOP - PGSIZE) (PTE_P OR PTE_W OR PTE_U) s")
  have e1: "excl_step s s1" using a by (rule sys_page_alloc_excl_step) simp
  show ?thesis
  proof (cases "r1 < 0")
    case True
    with None a e1 show ?thesis by (simp add: set_pgfault_handler_def Let_def)
  next
    case r1: False
    obtain r2 s2 where up: "sys_env_set_pgfault_upcall (sys_getenvid s1)
        (u_pgfault_upcall (envs s (curenv s))) s1 = (r2, s2)"
      by (cases "sys_env_set_pgfault_upcall (sys_getenvid s1)
        (u_pgfault_upcall (envs s (curenv s))) s1")
    have e2: "excl_step s s2"
      using e1 sys_env_set_pgfault_upcall_excl_step[OF up] by (rule excl_step_trans)
    have "excl_step s2 (s2\<lparr>envs := (envs s2)
          (curenv s2 := (envs s2 (curenv s2))\<lparr>u_pgfault_handler := Some h\<rparr>)\<rparr>)"
      by (rule excl_step_same_tables) (simp_all add: pgdir_walk_def)
    with e2 have e3: "excl_step s (s2\<lparr>envs := (envs s2)
          (curenv s2 := (envs s2 (curenv s2))\<lparr>u_pgfault_handler := Some h\<rparr>)\<rparr>)"
      by (rule excl_step_trans)
    from None a r1 up e2 e3 show ?thesis
      by (simp add: set_pgfault_handler_def Let_def)
  qed
qed

lemma fork_excl_step: "excl_step s (final (fork s))"
proof (cases "set_pgfault_handler Handler_pgfault s")
  case (Inl e)
  with set_pgfault_handler_excl_step[of s Handler_pgfault] show ?thesis
    by (simp add: fork_def final_Inl)
next
  case (Inr b)
  obtain u s1 where b: "b = (u, s1)" by (cases b)
  from set_pgfault_handler_excl_step[of s Handler_pgfault] have e1: "excl_step s s1"
    by (simp add: Inr b)
  obtain envid s2 where x: "sys_exofork s1 = (envid, s2)" by (cases "sys_exofork s1")
  have e2: "excl_step s s2" using e1 sys_exofork_excl_step[OF x] by (rule excl_step_trans)
  have "excl_step s (final (fork_resume envid s2))"
    using e2 fork_resume_excl_step by (rule excl_step_trans)
  with Inr b x show ?thesis by (simp add: fork_def)
qed

subsection \<open>When the driver succeeds\<close>

lemma walk_step_envid2env:
  assumes "walk_step s s'"
  shows "envid2env s' x = envid2env s x" and "sys_getenvid s' = sys_getenvid s"
  using assms by (simp_all add: walk_step_def envid2env_def sys_getenvid_def Let_def)

lemma dup_pages_succeeds:
  assumes "envid2env s (sys_getenvid s) = Some (curenv s)" and "envid2env s envid = Some c"
    and "\<forall>pn\<in>set pns. pn < 2 ^ 20 \<and> uvpt s pn AND PTE_P \<noteq> 0"
  shows "\<exists>s'. dup_pages envid pns s = Inr ((), s')"
  using assms
proof (induction pns arbitrary: s)
  case Nil
  show ?case by simp
next
  case (Cons pn pns)
  from Cons.prems(3) have pn: "pn < 2 ^ 20" "uvpt s pn AND PTE_P \<noteq> 0" by simp_all
  have "uvpt s (PGNUM (pn * PGSIZE)) AND PTE_P \<noteq> 0" using pn by (simp add: PGNUM_page)
  from duppage_succeeds[OF Cons.prems(1) Cons.prems(2) this]
  obtain s1 where d: "duppage envid pn s = Inr (0, s1)" ..
  from duppage_walk_step[of s envid pn] have w: "walk_step s s1" by (simp add: d)
  note k = duppage_keeps_presence[OF d pn]
  have c: "curenv s1 = curenv s" using k by simp
  have "\<exists>s'. dup_pages envid pns s1 = Inr ((), s')"
  proof (rule Cons.IH)
    show "envid2env s1 (sys_getenvid s1) = Some (curenv s1)"
      using Cons.prems(1) by (simp add: walk_step_envid2env[OF w] c)
    show "envid2env s1 envid = Some c"
      using Cons.prems(2) by (simp add: walk_step_envid2env[OF w])
    show "\<forall>pn\<in>set pns. pn < 2 ^ 20 \<and> uvpt s1 pn AND PTE_P \<noteq> 0"
      using Cons.prems(3) k by simp
  qed
  with d show ?case by simp
qed

lemma fork_pages_small:
  assumes "pn \<in> set (fork_pages s)"
  shows "pn < 2 ^ 20 \<and> uvpt s pn AND PTE_P \<noteq> 0"
proof -
  from assms obtain i where "i < 955" and "pn \<in> set (pte_pages s (of_nat i))"
    by (auto simp add: fork_pages_def PDX_UTOP_nat)
  then show ?thesis using pte_pages_small[of i pn s] by simp
qed

lemma fork_resume_succeeds:
  assumes pos: "0 < envid"
    and self: "envid2env s (sys_getenvid s) = Some (curenv s)"
    and child: "envid2env s envid = Some c"
    and free: "page_free_list s \<noteq> []"
  shows "\<exists>s'. fork_resume envid s = Inr (envid, s')"
proof -
  have "\<exists>s1. dup_pages envid (fork_pages s) s = Inr ((), s1)"
    using self child by (rule dup_pages_succeeds) (use fork_pages_small in blast)
  then obtain s1 where w: "fork_pde_loop envid 0 s = Inr ((), s1)"
    by (auto simp add: fork_pde_loop_pages)
  from fork_pde_loop_walk_step[of s envid] have ws: "walk_step s s1" by (simp add: w)
  have c1: "envid2env s1 envid = Some c" using child by (simp add: walk_step_envid2env[OF ws])
  have f1: "page_free_list s1 \<noteq> []" using free ws by (simp add: walk_step_def)
  from sys_page_alloc_success[OF c1 _ f1, of "PTE_P OR PTE_W OR PTE_U" "UXSTACKTOP - PGSIZE"]
  obtain s2 where
    a: "sys_page_alloc envid (UXSTACKTOP - PGSIZE) (PTE_P OR PTE_W OR PTE_U) s1 = (0, s2)"
    by auto
  from a obtain f where
    e2: "envs s2 = (envs s1)(ENVX envid := page_insert (envs s1 (ENVX envid))
           (PGNUM (UXSTACKTOP - PGSIZE)) (mk_pte f (PTE_P OR PTE_W OR PTE_U)))"
    by (rule sys_page_alloc_ok) simp_all
  have c2: "envid2env s2 envid = Some c"
    using envid2env_envs_upd[OF e2, of envid] c1 by simp
  define upc where "upc = env_pgfault_upcall (envs s2 (u_thisenv (envs s2 (curenv s2))))"
  from c2 obtain s3 where up: "sys_env_set_pgfault_upcall envid upc s2 = (0, s3)"
    by (auto simp add: sys_env_set_pgfault_upcall_def sysret_def)
  from up have
    e3: "envs s3 = (envs s2)(ENVX envid := (envs s2 (ENVX envid))\<lparr>env_pgfault_upcall := upc\<rparr>)"
    by (auto elim: sys_env_set_pgfault_upcall_ok)
  have c3: "envid2env s3 envid = Some c"
    using envid2env_envs_upd[OF e3, of envid] c2 by simp
  from c3 obtain s4 where st: "sys_env_set_status envid ENV_RUNNABLE s3 = (0, s4)"
    by (auto simp add: sys_env_set_status_def sysret_def)
  have "fork_resume envid s = Inr (envid, s4)"
    using pos w a up st by (simp add: fork_resume_def upc_def[symmetric])
  then show ?thesis ..
qed

lemma set_pgfault_handler_demo:
  "set_pgfault_handler Handler_pgfault demo_state = Inr ((), demo_state)"
  by (simp add: set_pgfault_handler_def Let_def demos)

lemma fork_demo: "fork demo_state = fork_resume 0x1001 demo_forked"
  by (simp add: fork_def set_pgfault_handler_demo sys_exofork_demo)

lemma fork_resume_demo_runs: "\<exists>s'. fork_resume 0x1001 demo_forked = Inr (0x1001, s')"
  by (rule fork_resume_succeeds[OF _ demo_forked_ids(1) demo_forked_ids(2)])
     (simp_all add: demos2)

lemma cow_excl_demo: "cow_excl_state demo_state"
proof -
  have "pgdir_walk (envs demo_state x) pn AND PTE_W = 0 \<or>
        pgdir_walk (envs demo_state x) pn AND PTE_COW = 0" for x pn
  proof (cases "x = 0")
    case True
    then have "pgdir_walk (envs demo_state x) pn = uvpt demo_state pn"
      by (simp add: uvpt_def demos)
    then show ?thesis by (simp add: uvpt_demo_state) (simp add: cdefs)
  next
    case False
    then show ?thesis by (simp add: pgdir_walk_def demos)
  qed
  then show ?thesis by (simp add: cow_excl_state_def)
qed

section \<open>Exclusive permission words\<close>

text \<open>
  C7.  Whatever the outcome of a run of \<open>pgfault\<close>, of \<open>duppage\<close> or of \<open>fork\<close> (from its
  start, or resumed after \<open>sys_exofork\<close>), every call of \<open>sys_page_alloc\<close> and of
  \<open>sys_page_map\<close> the run has made carries a permission word that does not hold \<open>PTE_W\<close>
  and \<open>PTE_COW\<close> together; so if no mapping held both before the run, no mapping holds
  both after it.
\<close>

theorem mapping_perms_exclusive:
  "syslog (final (pgfault utf s)) = syslog s @ calls_since s (final (pgfault utf s)) \<and>
   list_all (\<lambda>ev. excl_perm (fst ev)) (calls_since s (final (pgfault utf s))) \<and>
   (cow_excl_state s \<longrightarrow> cow_excl_state (final (pgfault utf s))) \<and>
   syslog (final (duppage envid pn s)) = syslog s @ calls_since s (final (duppage envid pn s)) \<and>
   list_all (\<lambda>ev. excl_perm (fst ev)) (calls_since s (final (duppage envid pn s))) \<and>
   (cow_excl_state s \<longrightarrow> cow_excl_state (final (duppage envid pn s))) \<and>
   syslog (final (fork s)) = syslog s @ calls_since s (final (fork s)) \<and>
   list_all (\<lambda>ev. excl_perm (fst ev)) (calls_since s (final (fork s))) \<and>
   (cow_excl_state s \<longrightarrow> cow_excl_state (final (fork s))) \<and>
   syslog (final (fork_resume envid s)) = syslog s @ calls_since s (final (fork_resume envid s)) \<and>
   list_all (\<lambda>ev. excl_perm (fst ev)) (calls_since s (final (fork_resume envid s))) \<and>
   (cow_excl_state s \<longrightarrow> cow_excl_state (final (fork_resume envid s)))"
proof -
  note p = pgfault_excl_step[of s utf] and d = duppage_excl_step[of s envid pn]
    and f = fork_excl_step[of s] and r = fork_resume_excl_step[of s envid]
  from excl_step_log[OF p] excl_step_log[OF d] excl_step_log[OF f] excl_step_log[OF r]
  show ?thesis
    using p d f r unfolding excl_step_def by blast
qed

text \<open>
  On the concrete machine \<open>fork\<close> returns, no call it has made carries \<open>PTE_W\<close> with
  \<open>PTE_COW\<close>, and no mapping holds both, before or after.
\<close>

theorem mapping_perms_exclusive_witness:
  "\<exists>s'. fork demo_state = Inr (0x1001, s') \<and> cow_excl_state demo_state \<and> cow_excl_state s' \<and>
      list_all (\<lambda>ev. excl_perm (fst ev)) (calls_since demo_state s')"
proof -
  from fork_resume_demo_runs obtain s' where run: "fork demo_state = Inr (0x1001, s')"
    unfolding fork_demo ..
  from mapping_perms_exclusive[of utf demo_state "0x1001" 0] cow_excl_demo
  have "cow_excl_state (final (fork demo_state)) \<and>
      list_all (\<lambda>ev. excl_perm (fst ev)) (calls_since demo_state (final (fork demo_state)))"
    by blast
  with run cow_excl_demo show ?thesis by simp
qed

section \<open>The child becomes runnable last\<close>

lemma sys_page_alloc_any:
  assumes "sys_page_alloc envid va perm s = (r, s')"
  shows "syslog s' = syslog s @ [(SYS_page_alloc envid va perm, r)]" and "r < 0 \<or> r = 0"
    and "curenv s' = curenv s" and "env_status (envs s' x) = env_status (envs s x)"
    and "u_thisenv (envs s' x) = u_thisenv (envs s x)"
    and "env_pgfault_upcall (envs s' x) = env_pgfault_upcall (envs s x)"
  using assms
  by (auto simp add: sys_page_alloc_def sysret_def E_BAD_ENV_def E_INVAL_def E_NO_MEM_def
        split: option.splits if_splits list.splits)

lemma sys_env_set_pgfault_upcall_any:
  assumes "sys_env_set_pgfault_upcall envid func s = (r, s')"
  shows "syslog s' = syslog s @ [(SYS_env_set_pgfault_upcall envid func, r)]" and "r < 0 \<or> r = 0"
    and "curenv s' = curenv s" and "env_status (envs s' x) = env_status (envs s x)"
  using assms
  by (auto simp add: sys_env_set_pgfault_upcall_def sysret_def E_BAD_ENV_def
        split: option.splits if_splits)

lemma sys_env_set_status_any:
  assumes "sys_env_set_status envid st s = (r, s')"
  shows "syslog s' = syslog s @ [(SYS_env_set_status envid st, r)]" and "r < 0 \<or> r = 0"
    and "r < 0 \<Longrightarrow> env_status (envs s' x) = env_status (envs s x)"
  using assms
  by (auto simp add: sys_env_set_status_def sysret_def E_BAD_ENV_def E_INVAL_def
        split: option.splits if_splits)

lemma walk_step_page_maps:
  assumes "walk_step s s'"
  shows "list_all (\<lambda>ev. is_page_map (fst ev)) (calls_since s s')"
  using assms by (simp add: walk_step_def list_all_iff)

lemma fork_resume_parent_Inr:
  assumes "fork_resume envid s = Inr (r, s')" and "envid \<noteq> 0"
  obtains s1 r2 s2 r3 s3 r4 where "0 < envid" "r = envid"
    "fork_pde_loop envid 0 s = Inr ((), s1)"
    "sys_page_alloc envid (UXSTACKTOP - PGSIZE) (PTE_P OR PTE_W OR PTE_U) s1 = (r2, s2)"
    "\<not> r2 < 0"
    "sys_env_set_pgfault_upcall envid
       (env_pgfault_upcall (envs s2 (u_thisenv (envs s2 (curenv s2))))) s2 = (r3, s3)"
    "\<not> r3 < 0"
    "sys_env_set_status envid ENV_RUNNABLE s3 = (r4, s')" "\<not> r4 < 0"
  using assms
  by (auto simp add: fork_resume_def panic_def split: if_splits sum.splits prod.splits)

text \<open>The child, as a returning run of the parent branch leaves it.\<close>

lemma fork_resume_child:
  assumes run: "fork_resume envid s = Inr (r, s')" and parent: "envid \<noteq> 0"
  shows "0 < envid \<and> r = envid \<and> env_id (envs s' (ENVX envid)) = envid \<and>
     env_status (envs s' (ENVX envid)) = ENV_RUNNABLE \<and>
     env_pgfault_upcall (envs s' (ENVX envid)) =
       env_pgfault_upcall (envs s (u_thisenv (envs s (curenv s)))) \<and>
     (\<exists>f. page_free_list s = f # page_free_list s' \<and>
          pgdir_walk (envs s' (ENVX envid)) (PGNUM (UXSTACKTOP - PGSIZE)) =
            mk_pte f (PTE_P OR PTE_W OR PTE_U))"
proof -
  define c where "c = ENVX envid"
  from run parent obtain s1 r2 s2 r3 s3 r4 where
    pos: "0 < envid" and r: "r = envid"
    and w: "fork_pde_loop envid 0 s = Inr ((), s1)"
    and a: "sys_page_alloc envid (UXSTACKTOP - PGSIZE) (PTE_P OR PTE_W OR PTE_U) s1 = (r2, s2)"
      "\<not> r2 < 0"
    and up: "sys_env_set_pgfault_upcall envid
       (env_pgfault_upcall (envs s2 (u_thisenv (envs s2 (curenv s2))))) s2 = (r3, s3)"
      "\<not> r3 < 0"
    and st: "sys_env_set_status envid ENV_RUNNABLE s3 = (r4, s')" "\<not> r4 < 0"
    by (rule fork_resume_parent_Inr)
  from fork_pde_loop_walk_step[of s envid] have ws: "walk_step s s1" by (simp add: w)
  from a obtain f fs where
    i1: "envid2env s1 envid = Some c"
    and fl: "page_free_list s1 = f # fs" "page_free_list s2 = fs"
    and e2: "envs s2 = (envs s1)(c := page_insert (envs s1 c) (PGNUM (UXSTACKTOP - PGSIZE))
               (mk_pte f (PTE_P OR PTE_W OR PTE_U)))"
    and c2: "curenv s2 = curenv s1"
    unfolding c_def by (rule sys_page_alloc_ok)
  from up have
    e3: "envs s3 = (envs s2)(c := (envs s2 c)\<lparr>env_pgfault_upcall :=
            env_pgfault_upcall (envs s2 (u_thisenv (envs s2 (curenv s2))))\<rparr>)"
    and f3: "page_free_list s3 = page_free_list s2"
    unfolding c_def by (auto elim: sys_env_set_pgfault_upcall_ok)
  from st have
    e4: "envs s' = (envs s3)(c := (envs s3 c)\<lparr>env_status := ENV_RUNNABLE\<rparr>)"
    and f4: "page_free_list s' = page_free_list s3"
    unfolding c_def by (auto elim: sys_env_set_status_ok)
  have id1: "env_id (envs s1 c) = envid"
    using i1 by (simp add: envid2env_def Let_def c_def split: if_splits)
  have upc: "env_pgfault_upcall (envs s2 (u_thisenv (envs s2 (curenv s2)))) =
             env_pgfault_upcall (envs s (u_thisenv (envs s (curenv s))))"
    using ws by (simp add: e2 c2 walk_step_def)
  have "page_free_list s = f # page_free_list s'"
    using ws fl f3 f4 by (simp add: walk_step_def)
  moreover have "pgdir_walk (envs s' c) (PGNUM (UXSTACKTOP - PGSIZE)) =
      mk_pte f (PTE_P OR PTE_W OR PTE_U)"
    by (simp add: e4 e3 e2 pgdir_walk_def page_insert_def cdefs)
  ultimately show ?thesis
    using pos r id1 upc by (auto simp add: e4 e3 e2 c_def[symmetric])
qed

text \<open>The calls of a run of the parent branch, whatever its outcome.\<close>

lemma fork_resume_calls:
  assumes "0 < envid"
  shows "\<exists>walk rest.
      syslog (final (fork_resume envid s)) = syslog s @ walk @ rest \<and>
      list_all (\<lambda>ev. is_page_map (fst ev)) walk \<and>
      (rest = [] \<or>
       (\<exists>r. r < 0 \<and> rest = [(stack_alloc_call envid, r)]) \<or>
       (\<exists>r. r < 0 \<and> rest = [(stack_alloc_call envid, 0), (upcall_call envid s, r)]) \<or>
       (\<exists>r. rest = [(stack_alloc_call envid, 0), (upcall_call envid s, 0),
                     (runnable_call envid, r)])) \<and>
      (\<forall>r. (runnable_call envid, r) \<in> set (walk @ rest) \<longrightarrow>
         rest = [(stack_alloc_call envid, 0), (upcall_call envid s, 0),
                 (runnable_call envid, r)]) \<and>
      ((\<exists>s'. fork_resume envid s = Inr (envid, s')) \<longleftrightarrow>
         rest = [(stack_alloc_call envid, 0), (upcall_call envid s, 0),
                 (runnable_call envid, 0)]) \<and>
      ((\<exists>e s'. fork_resume envid s = Inl (e, s')) \<longrightarrow>
         (\<forall>x. env_status (envs (final (fork_resume envid s)) x) = env_status (envs s x)))"
proof -
  define A where "A = stack_alloc_call envid"
  define U where "U = upcall_call envid s"
  define S where "S = runnable_call envid"
  have parent: "\<not> envid < 0" "envid \<noteq> 0" using assms by simp_all
  have nm: "\<not> is_page_map S" "\<not> is_page_map A" "\<not> is_page_map U"
    by (simp_all add: S_def A_def U_def runnable_call_def stack_alloc_call_def upcall_call_def)
  have ne: "S \<noteq> A" "S \<noteq> U"
    by (simp_all add: S_def A_def U_def runnable_call_def stack_alloc_call_def upcall_call_def)
  have ws: "walk_step s (final (fork_pde_loop envid 0 s))" by (rule fork_pde_loop_walk_step)
  define walk where "walk = calls_since s (final (fork_pde_loop envid 0 s))"
  have wl: "syslog (final (fork_pde_loop envid 0 s)) = syslog s @ walk"
    unfolding walk_def using ws by (rule walk_step_log)
  have wm: "list_all (\<lambda>ev. is_page_map (fst ev)) walk"
    unfolding walk_def using ws by (rule walk_step_page_maps)
  have notin: "(S, r) \<notin> set walk" for r
    using wm nm(1) by (auto simp add: list_all_iff)
  have wst: "env_status (envs (final (fork_pde_loop envid 0 s)) x) = env_status (envs s x)" for x
    using ws by (simp add: walk_step_def)
  have wup: "env_pgfault_upcall (envs (final (fork_pde_loop envid 0 s))
                 (u_thisenv (envs (final (fork_pde_loop envid 0 s))
                    (curenv (final (fork_pde_loop envid 0 s))))))
             = env_pgfault_upcall (envs s (u_thisenv (envs s (curenv s))))"
    using ws by (simp add: walk_step_def)
  show ?thesis
  proof (cases "fork_pde_loop envid 0 s")
    case (Inl e)
    then have res: "fork_resume envid s = Inl e"
      using parent by (simp add: fork_resume_def)
    show ?thesis
      apply (rule exI[of _ walk], rule exI[of _ "[]"])
      using wl wm wst notin by (simp add: res Inl final_Inl S_def[symmetric])
  next
    case (Inr b)
    obtain u s1 where b: "b = (u, s1)" by (cases b)
    have s1: "final (fork_pde_loop envid 0 s) = s1" by (simp add: Inr b)
    note wl1 = wl[unfolded s1] and wst1 = wst[unfolded s1] and wup1 = wup[unfolded s1]
    obtain r2 s2 where
      a: "sys_page_alloc envid (UXSTACKTOP - PGSIZE) (PTE_P OR PTE_W OR PTE_U) s1 = (r2, s2)"
      by (cases "sys_page_alloc envid (UXSTACKTOP - PGSIZE) (PTE_P OR PTE_W OR PTE_U) s1")
    note a1 = sys_page_alloc_any[OF a]
    have l2: "syslog s2 = syslog s @ walk @ [(A, r2)]"
      using a1(1) wl1 by (simp add: A_def stack_alloc_call_def)
    have st2: "env_status (envs s2 x) = env_status (envs s x)" for x
      using a1(4)[of x] wst1 by simp
    show ?thesis
    proof (cases "r2 < 0")
      case True
      then have res: "fork_resume envid s = Inl (Panic ''fork: Cannot allocate child exception stack'', s2)"
        using parent Inr b a by (simp add: fork_resume_def panic_def)
      show ?thesis
        apply (rule exI[of _ walk], rule exI[of _ "[(A, r2)]"])
        using l2 wm st2 notin True ne
        by (auto simp add: res A_def[symmetric] U_def[symmetric] S_def[symmetric])
    next
      case False
      with a1(2) have r2: "r2 = 0" by simp
      have upc: "env_pgfault_upcall (envs s2 (u_thisenv (envs s2 (curenv s2)))) =
                 env_pgfault_upcall (envs s (u_thisenv (envs s (curenv s))))"
        using a1(3,5,6) wup1 by simp
      obtain r3 s3 where up: "sys_env_set_pgfault_upcall envid
          (env_pgfault_upcall (envs s (u_thisenv (envs s (curenv s))))) s2 = (r3, s3)"
        by (cases "sys_env_set_pgfault_upcall envid
          (env_pgfault_upcall (envs s (u_thisenv (envs s (curenv s))))) s2")
      note u1 = sys_env_set_pgfault_upcall_any[OF up]
      have l3: "syslog s3 = syslog s @ walk @ [(A, 0), (U, r3)]"
        using u1(1) l2 r2 by (simp add: U_def upcall_call_def)
      have st3: "env_status (envs s3 x) = env_status (envs s x)" for x
        using u1(4)[of x] st2 by simp
      show ?thesis
      proof (cases "r3 < 0")
        case True
        then have res: "fork_resume envid s =
            Inl (Panic ''fork: Cannot set pgfault_upcall for child environment'', s3)"
          using parent Inr b a r2 up upc by (simp add: fork_resume_def panic_def)
        show ?thesis
          apply (rule exI[of _ walk], rule exI[of _ "[(A, 0), (U, r3)]"])
          using l3 wm st3 notin True ne
          by (auto simp add: res A_def[symmetric] U_def[symmetric] S_def[symmetric])
      next
        case False
        with u1(2) have r3: "r3 = 0" by simp
        obtain r4 s4 where st: "sys_env_set_status envid ENV_RUNNABLE s3 = (r4, s4)"
          by (cases "sys_env_set_status envid ENV_RUNNABLE s3")
        note t1 = sys_env_set_status_any[OF st]
        have l4: "syslog s4 = syslog s @ walk @ [(A, 0), (U, 0), (S, r4)]"
          using t1(1) l3 r3 by (simp add: S_def runnable_call_def)
        show ?thesis
        proof (cases "r4 < 0")
          case True
          then have res: "fork_resume envid s =
              Inl (Panic ''fork: Cannot change child running status'', s4)"
            using parent Inr b a r2 up upc r3 st by (simp add: fork_resume_def panic_def)
          have st4: "env_status (envs s4 x) = env_status (envs s x)" for x
            using t1(3)[OF True, of x] st3 by simp
          show ?thesis
            apply (rule exI[of _ walk], rule exI[of _ "[(A, 0), (U, 0), (S, r4)]"])
            using l4 wm st4 notin True ne
            by (auto simp add: res A_def[symmetric] U_def[symmetric] S_def[symmetric])
        next
          case False
          with t1(2) have r4: "r4 = 0" by simp
          have res: "fork_resume envid s = Inr (envid, s4)"
            using parent Inr b a r2 up upc r3 st r4 by (simp add: fork_resume_def)
          show ?thesis
            apply (rule exI[of _ walk], rule exI[of _ "[(A, 0), (U, 0), (S, 0)]"])
            using l4 wm notin r4 ne
            by (auto simp add: res A_def[symmetric] U_def[symmetric] S_def[symmetric])
        qed
      qed
    qed
  qed
qed

subsection \<open>A refused system call is a panic\<close>

lemma sys_page_map_log:
  assumes "sys_page_map a va b vb perm s = (r, s')"
  shows "syslog s' = syslog s @ [(SYS_page_map a va b vb perm, r)]"
  using assms
  by (auto simp add: sys_page_map_def sysret_def Let_def split: option.splits if_splits)

lemma sys_exofork_log:
  assumes "sys_exofork s = (r, s')"
  shows "syslog s' = syslog s @ [(SYS_exofork, r)]"
  using assms
  by (auto simp add: sys_exofork_def sysret_def Let_def split: list.splits)

lemma panics_at_refusal_log:
  assumes "panics_at_refusal s res"
  shows "syslog (final res) = syslog s @ calls_since s (final res)"
proof -
  from assms have "take (length (syslog s)) (syslog (final res)) = syslog s"
    by (simp add: panics_at_refusal_def)
  then show ?thesis
    unfolding calls_since_def by (metis append_take_drop_id)
qed

lemma panics_at_refusal_return [simp]: "panics_at_refusal s (Inr (v, s))"
  by (simp add: panics_at_refusal_def calls_since_def)

lemma panics_at_refusal_same_log:
  assumes "panics_at_refusal s (Inr (v, s1))" and "syslog s2 = syslog s1"
  shows "panics_at_refusal s (Inr (w, s2))"
  using assms by (simp add: panics_at_refusal_def calls_since_def)

lemma panics_at_refusal_after:
  assumes l: "syslog s1 = syslog s @ c1" and a: "list_all (\<lambda>ev. 0 \<le> snd ev) c1"
    and k: "panics_at_refusal s1 res"
  shows "panics_at_refusal s res"
proof -
  define c2 where "c2 = calls_since s1 (final res)"
  have l2: "syslog (final res) = syslog s @ (c1 @ c2)"
    using panics_at_refusal_log[OF k] l by (simp add: c2_def)
  have c: "calls_since s (final res) = c1 @ c2" using l2 by (rule calls_since_eq)
  have t: "take (length (syslog s)) (syslog (final res)) = syslog s" by (simp add: l2)
  show ?thesis
  proof (cases res)
    case (Inr b)
    obtain v s' where b: "b = (v, s')" by (cases b)
    from k have "list_all (\<lambda>ev. 0 \<le> snd ev) c2"
      by (simp add: panics_at_refusal_def Inr b c2_def)
    with a t c show ?thesis by (simp add: panics_at_refusal_def Inr b)
  next
    case (Inl b)
    obtain e s' where b: "b = (e, s')" by (cases b)
    from k have p: "is_panic e" and ne: "c2 \<noteq> []" and neg: "snd (last c2) < 0"
      and bl: "list_all (\<lambda>ev. 0 \<le> snd ev) (butlast c2)"
      by (simp_all add: panics_at_refusal_def Inl b c2_def)
    have "butlast (c1 @ c2) = c1 @ butlast c2" using ne by (simp add: butlast_append)
    with a t c p ne neg bl show ?thesis by (simp add: panics_at_refusal_def Inl b)
  qed
qed

lemma panics_at_refusal_bind:
  assumes a: "panics_at_refusal s a"
    and k: "\<And>v s1. a = Inr (v, s1) \<Longrightarrow> panics_at_refusal s1 (k v s1)"
  shows "panics_at_refusal s (case a of Inl e \<Rightarrow> Inl e | Inr (v, s1) \<Rightarrow> k v s1)"
proof (cases a)
  case (Inl b)
  obtain e s' where b: "b = (e, s')" by (cases b)
  from a show ?thesis by (simp add: panics_at_refusal_def Inl b)
next
  case (Inr b)
  obtain v s1 where b: "b = (v, s1)" by (cases b)
  from a have t: "syslog s1 = syslog s @ calls_since s s1"
    using panics_at_refusal_log[OF a] by (simp add: Inr b)
  from a have all: "list_all (\<lambda>ev. 0 \<le> snd ev) (calls_since s s1)"
    by (simp add: panics_at_refusal_def Inr b)
  from panics_at_refusal_after[OF t all k[OF Inr[unfolded b]]]
  show ?thesis by (simp add: Inr b)
qed

lemma panics_at_refusal_call:
  assumes l: "syslog s1 = syslog s @ [(c, r)]"
    and k: "\<not> r < 0 \<Longrightarrow> panics_at_refusal s1 res"
  shows "panics_at_refusal s (if r < 0 then panic msg s1 else res)"
proof (cases "r < 0")
  case True
  then show ?thesis
    by (simp add: panics_at_refusal_def panic_def l calls_since_eq[OF l])
next
  case False
  then have "list_all (\<lambda>ev. 0 \<le> snd ev) [(c, r)]" by simp
  from panics_at_refusal_after[OF l this k[OF False]] False show ?thesis by simp
qed

lemma duppage_panics_at_refusal: "panics_at_refusal s (duppage envid pn s)"
proof -
  define me where "me = sys_getenvid s"
  define va where "va = pn * PGSIZE"
  show ?thesis
  proof (cases "uvpt s pn AND PTE_COW \<noteq> 0 \<or> uvpt s pn AND PTE_W \<noteq> 0")
    case False
    obtain r1 s1 where m1: "sys_page_map me va envid va (PTE_P OR PTE_U) s = (r1, s1)"
      by (cases "sys_page_map me va envid va (PTE_P OR PTE_U) s")
    have d: "duppage envid pn s =
        (if r1 < 0 then panic ''duppage: Cannot map page into target environment'' s1
         else Inr (0, s1))"
      using False m1 by (simp add: duppage_def Let_def me_def[symmetric] va_def[symmetric])
    show ?thesis
      unfolding d by (rule panics_at_refusal_call[OF sys_page_map_log[OF m1]]) simp
  next
    case True
    obtain r1 s1 where
      m1: "sys_page_map me va envid va (PTE_P OR PTE_U OR PTE_COW) s = (r1, s1)"
      by (cases "sys_page_map me va envid va (PTE_P OR PTE_U OR PTE_COW) s")
    obtain r2 s2 where
      m2: "sys_page_map me va me va (PTE_P OR PTE_U OR PTE_COW) s1 = (r2, s2)"
      by (cases "sys_page_map me va me va (PTE_P OR PTE_U OR PTE_COW) s1")
    have d: "duppage envid pn s =
        (if r1 < 0 then panic ''duppage: Cannot map page into target environment'' s1
         else (if r2 < 0 then panic ''duppage: Cannot remap page as COW'' s2
               else Inr (0, s2)))"
      using True m1 m2
      by (auto simp add: duppage_def Let_def me_def[symmetric] va_def[symmetric])
    have in2: "panics_at_refusal s1
        (if r2 < 0 then panic ''duppage: Cannot remap page as COW'' s2 else Inr (0, s2))"
      by (rule panics_at_refusal_call[OF sys_page_map_log[OF m2]]) simp
    show ?thesis
      unfolding d by (rule panics_at_refusal_call[OF sys_page_map_log[OF m1]]) (rule in2)
  qed
qed

lemma dup_pages_panics_at_refusal: "panics_at_refusal s (dup_pages envid pns s)"
proof (induction pns arbitrary: s)
  case Nil
  show ?case by simp
next
  case (Cons pn pns)
  show ?case
    unfolding dup_pages.simps
    by (rule panics_at_refusal_bind[OF duppage_panics_at_refusal]) (rule Cons.IH)
qed

lemma fork_pde_loop_panics_at_refusal: "panics_at_refusal s (fork_pde_loop envid 0 s)"
  by (simp add: fork_pde_loop_pages dup_pages_panics_at_refusal)

lemma fork_resume_panics_at_refusal:
  assumes "0 \<le> envid"
  shows "panics_at_refusal s (fork_resume envid s)"
proof (cases "envid = 0")
  case True
  have "panics_at_refusal s (Inr (0 :: envid_t, s))" by simp
  then have "panics_at_refusal s (Inr (0 :: envid_t, s\<lparr>envs := (envs s)
               (curenv s := (envs s (curenv s))\<lparr>u_thisenv := ENVX (sys_getenvid s)\<rparr>)\<rparr>))"
    by (rule panics_at_refusal_same_log) simp
  with True show ?thesis by (simp add: fork_resume_def)
next
  case False
  with assms have parent: "\<not> envid < 0" "envid \<noteq> 0" by simp_all
  have tail: "panics_at_refusal s1
      (case sys_page_alloc envid (UXSTACKTOP - PGSIZE) (PTE_P OR PTE_W OR PTE_U) s1 of
         (r2, s2) \<Rightarrow>
           if r2 < 0 then panic ''fork: Cannot allocate child exception stack'' s2
           else (case sys_env_set_pgfault_upcall envid
                        (env_pgfault_upcall (envs s2 (u_thisenv (envs s2 (curenv s2)))))
                        s2 of (r3, s3) \<Rightarrow>
             if r3 < 0
             then panic ''fork: Cannot set pgfault_upcall for child environment'' s3
             else (case sys_env_set_status envid ENV_RUNNABLE s3 of (r4, s4) \<Rightarrow>
               if r4 < 0 then panic ''fork: Cannot change child running status'' s4
               else Inr (envid, s4))))" for s1
  proof -
    obtain r2 s2 where
      a: "sys_page_alloc envid (UXSTACKTOP - PGSIZE) (PTE_P OR PTE_W OR PTE_U) s1 = (r2, s2)"
      by (cases "sys_page_alloc envid (UXSTACKTOP - PGSIZE) (PTE_P OR PTE_W OR PTE_U) s1")
    obtain r3 s3 where up: "sys_env_set_pgfault_upcall envid
        (env_pgfault_upcall (envs s2 (u_thisenv (envs s2 (curenv s2))))) s2 = (r3, s3)"
      by (cases "sys_env_set_pgfault_upcall envid
        (env_pgfault_upcall (envs s2 (u_thisenv (envs s2 (curenv s2))))) s2")
    obtain r4 s4 where st: "sys_env_set_status envid ENV_RUNNABLE s3 = (r4, s4)"
      by (cases "sys_env_set_status envid ENV_RUNNABLE s3")
    have p4: "panics_at_refusal s3
        (if r4 < 0 then panic ''fork: Cannot change child running status'' s4
         else Inr (envid, s4))"
      by (rule panics_at_refusal_call[OF sys_env_set_status_any(1)[OF st]]) simp
    have p3: "panics_at_refusal s2
        (if r3 < 0 then panic ''fork: Cannot set pgfault_upcall for child environment'' s3
         else (if r4 < 0 then panic ''fork: Cannot change child running status'' s4
               else Inr (envid, s4)))"
      by (rule panics_at_refusal_call[OF sys_env_set_pgfault_upcall_any(1)[OF up]]) (rule p4)
    have "panics_at_refusal s1
        (if r2 < 0 then panic ''fork: Cannot allocate child exception stack'' s2
         else (if r3 < 0 then panic ''fork: Cannot set pgfault_upcall for child environment'' s3
               else (if r4 < 0 then panic ''fork: Cannot change child running status'' s4
                     else Inr (envid, s4))))"
      by (rule panics_at_refusal_call[OF sys_page_alloc_any(1)[OF a]]) (rule p3)
    then show ?thesis by (simp only: a up st prod.case)
  qed
  have "panics_at_refusal s
      (case fork_pde_loop envid 0 s of
         Inl e \<Rightarrow> Inl e
       | Inr (u, s1) \<Rightarrow>
          (case sys_page_alloc envid (UXSTACKTOP - PGSIZE) (PTE_P OR PTE_W OR PTE_U) s1 of
         (r2, s2) \<Rightarrow>
           if r2 < 0 then panic ''fork: Cannot allocate child exception stack'' s2
           else (case sys_env_set_pgfault_upcall envid
                        (env_pgfault_upcall (envs s2 (u_thisenv (envs s2 (curenv s2)))))
                        s2 of (r3, s3) \<Rightarrow>
             if r3 < 0
             then panic ''fork: Cannot set pgfault_upcall for child environment'' s3
             else (case sys_env_set_status envid ENV_RUNNABLE s3 of (r4, s4) \<Rightarrow>
               if r4 < 0 then panic ''fork: Cannot change child running status'' s4
               else Inr (envid, s4)))))"
    by (rule panics_at_refusal_bind[OF fork_pde_loop_panics_at_refusal]) (rule tail)
  with parent show ?thesis by (simp add: fork_resume_def)
qed

lemma set_pgfault_handler_panics_at_refusal:
  "panics_at_refusal s (set_pgfault_handler h s)"
proof (cases "u_pgfault_handler (envs s (curenv s))")
  case (Some h0)
  have "panics_at_refusal s (Inr ((), s))" by simp
  then have "panics_at_refusal s (Inr ((), s\<lparr>envs := (envs s)
          (curenv s := (envs s (curenv s))\<lparr>u_pgfault_handler := Some h\<rparr>)\<rparr>))"
    by (rule panics_at_refusal_same_log) simp
  with Some show ?thesis by (simp add: set_pgfault_handler_def Let_def)
next
  case None
  obtain r1 s1 where
    a: "sys_page_alloc (sys_getenvid s) (UXSTACKTOP - PGSIZE) (PTE_P OR PTE_W OR PTE_U) s = (r1, s1)"
    by (cases "sys_page_alloc (sys_getenvid s) (UXSTACKTOP - PGSIZE) (PTE_P OR PTE_W OR PTE_U) s")
  obtain r2 s2 where up: "sys_env_set_pgfault_upcall (sys_getenvid s1)
      (u_pgfault_upcall (envs s (curenv s))) s1 = (r2, s2)"
    by (cases "sys_env_set_pgfault_upcall (sys_getenvid s1)
      (u_pgfault_upcall (envs s (curenv s))) s1")
  have "panics_at_refusal s2 (Inr ((), s2))" by simp
  then have "panics_at_refusal s2 (Inr ((), s2\<lparr>envs := (envs s2)
          (curenv s2 := (envs s2 (curenv s2))\<lparr>u_pgfault_handler := Some h\<rparr>)\<rparr>))"
    by (rule panics_at_refusal_same_log) simp
  then have p2: "panics_at_refusal s1
      (if r2 < 0 then panic ''set_pgfault_handler: cannot set upcall'' s2
       else Inr ((), s2\<lparr>envs := (envs s2)
          (curenv s2 := (envs s2 (curenv s2))\<lparr>u_pgfault_handler := Some h\<rparr>)\<rparr>))"
    by (intro panics_at_refusal_call[OF sys_env_set_pgfault_upcall_any(1)[OF up]])
  have "panics_at_refusal s
      (if r1 < 0 then panic ''set_pgfault_handler: cannot allocate exception stack'' s1
       else (if r2 < 0 then panic ''set_pgfault_handler: cannot set upcall'' s2
       else Inr ((), s2\<lparr>envs := (envs s2)
          (curenv s2 := (envs s2 (curenv s2))\<lparr>u_pgfault_handler := Some h\<rparr>)\<rparr>)))"
    by (rule panics_at_refusal_call[OF sys_page_alloc_any(1)[OF a]]) (rule p2)
  moreover have "set_pgfault_handler h s =
      (if r1 < 0 then panic ''set_pgfault_handler: cannot allocate exception stack'' s1
       else (if r2 < 0 then panic ''set_pgfault_handler: cannot set upcall'' s2
       else Inr ((), s2\<lparr>envs := (envs s2)
          (curenv s2 := (envs s2 (curenv s2))\<lparr>u_pgfault_handler := Some h\<rparr>)\<rparr>)))"
    using None a up by (simp add: set_pgfault_handler_def Let_def)
  ultimately show ?thesis by simp
qed

lemma fork_panics_at_refusal: "panics_at_refusal s (fork s)"
proof -
  have tail: "panics_at_refusal s1 (case sys_exofork s1 of (envid, s2) \<Rightarrow> fork_resume envid s2)"
    for s1
  proof -
    obtain envid s2 where x: "sys_exofork s1 = (envid, s2)" by (cases "sys_exofork s1")
    have r: "fork_resume envid s2 =
        (if envid < 0 then panic ''fork: Cannot create a child environment'' s2
         else fork_resume envid s2)"
      by (simp add: fork_resume_def)
    have "panics_at_refusal s1
        (if envid < 0 then panic ''fork: Cannot create a child environment'' s2
         else fork_resume envid s2)"
      by (rule panics_at_refusal_call[OF sys_exofork_log[OF x]])
         (rule fork_resume_panics_at_refusal, simp)
    with r show ?thesis by (simp add: x)
  qed
  have "panics_at_refusal s
      (case set_pgfault_handler Handler_pgfault s of
         Inl e \<Rightarrow> Inl e
       | Inr (u, s1) \<Rightarrow> (case sys_exofork s1 of (envid, s2) \<Rightarrow> fork_resume envid s2))"
    by (rule panics_at_refusal_bind[OF set_pgfault_handler_panics_at_refusal]) (rule tail)
  then show ?thesis by (simp add: fork_def Let_def)
qed

lemma panics_at_refusal_iff:
  assumes "panics_at_refusal s res"
  shows "(\<exists>ev\<in>set (calls_since s (final res)). snd ev < 0) = (\<exists>msg s'. res = Inl (Panic msg, s'))"
    and "(\<forall>ev\<in>set (calls_since s (final res)). 0 \<le> snd ev) = (\<exists>v s'. res = Inr (v, s'))"
proof -
  show "(\<exists>ev\<in>set (calls_since s (final res)). snd ev < 0) = (\<exists>msg s'. res = Inl (Panic msg, s'))"
  proof (cases res)
    case (Inr b)
    obtain v s' where b: "b = (v, s')" by (cases b)
    from assms show ?thesis by (auto simp add: panics_at_refusal_def Inr b list_all_iff)
  next
    case (Inl b)
    obtain e s' where b: "b = (e, s')" by (cases b)
    from assms have p: "is_panic e" and ne: "calls_since s s' \<noteq> []"
      and neg: "snd (last (calls_since s s')) < 0"
      by (simp_all add: panics_at_refusal_def Inl b)
    from p obtain msg where "e = Panic msg" by (cases e) simp_all
    moreover from ne have "last (calls_since s s') \<in> set (calls_since s s')" by simp
    ultimately show ?thesis using neg by (auto simp add: Inl b)
  qed
  show "(\<forall>ev\<in>set (calls_since s (final res)). 0 \<le> snd ev) = (\<exists>v s'. res = Inr (v, s'))"
  proof (cases res)
    case (Inr b)
    obtain v s' where b: "b = (v, s')" by (cases b)
    from assms show ?thesis by (auto simp add: panics_at_refusal_def Inr b list_all_iff)
  next
    case (Inl b)
    obtain e s' where b: "b = (e, s')" by (cases b)
    from assms have ne: "calls_since s s' \<noteq> []"
      and neg: "snd (last (calls_since s s')) < 0"
      by (simp_all add: panics_at_refusal_def Inl b)
    from ne have "last (calls_since s s') \<in> set (calls_since s s')" by simp
    with neg have "\<not> (\<forall>ev\<in>set (calls_since s s'). 0 \<le> snd ev)" by force
    then show ?thesis by (simp add: Inl b)
  qed
qed

subsection \<open>The child's address space is whole before it may run\<close>

lemma dup_entry_idem [simp]: "dup_entry (dup_entry pte) = dup_entry pte"
  by (simp add: dup_entry_def PTE_ADDR_mk_pte)

lemma dup_entry_present [simp]: "dup_entry pte AND PTE_P \<noteq> 0"
  by (simp add: dup_entry_def)

lemma duppage_child:
  assumes run: "duppage envid pn s = Inr (r, s')"
    and self: "ENVX (sys_getenvid s) = curenv s"
    and pn: "pn < 2 ^ 20"
  shows "curenv s' = curenv s" and "sys_getenvid s' = sys_getenvid s"
    and "dup_entry (uvpt s' q) = dup_entry (uvpt s q)"
    and "pgdir_walk (envs s' (ENVX envid)) pn = dup_entry (uvpt s pn)"
    and "q \<noteq> pn \<Longrightarrow> pgdir_walk (envs s' y) q = pgdir_walk (envs s y) q"
proof -
  have p: "PGNUM (pn * PGSIZE) = pn" using pn by (rule PGNUM_page)
  note e = duppage_effect[OF run self, unfolded p]
  from e show c: "curenv s' = curenv s" by simp
  from duppage_walk_step[of s envid pn] have ws: "walk_step s s'" by (simp add: run)
  from ws show "sys_getenvid s' = sys_getenvid s" by (rule walk_step_envid2env)
  have w: "pgdir_walk (envs s' y) q =
        (if q = pn \<and>
            (y = ENVX envid \<or>
             y = curenv s \<and> (uvpt s pn AND PTE_COW \<noteq> 0 \<or> uvpt s pn AND PTE_W \<noteq> 0))
         then dup_entry (uvpt s pn) else pgdir_walk (envs s y) q)" for y q
    unfolding dup_entry_def
    by (rule e[THEN conjunct2, THEN conjunct2, THEN conjunct2, THEN conjunct2, THEN conjunct2,
          THEN conjunct2, THEN conjunct2, THEN conjunct1, rule_format])
  show "pgdir_walk (envs s' (ENVX envid)) pn = dup_entry (uvpt s pn)" by (simp add: w)
  show "q \<noteq> pn \<Longrightarrow> pgdir_walk (envs s' y) q = pgdir_walk (envs s y) q" by (simp add: w)
  have "uvpt s' q = pgdir_walk (envs s' (curenv s)) q" by (simp add: uvpt_def c)
  also have "\<dots> = (if q = pn \<and>
            (curenv s = ENVX envid \<or> uvpt s pn AND PTE_COW \<noteq> 0 \<or> uvpt s pn AND PTE_W \<noteq> 0)
         then dup_entry (uvpt s pn) else uvpt s q)"
  proof -
    have "pgdir_walk (envs s (curenv s)) q = uvpt s q" by (simp add: uvpt_def)
    then show ?thesis by (auto simp add: w)
  qed
  finally show "dup_entry (uvpt s' q) = dup_entry (uvpt s q)" by simp
qed

lemma dup_pages_child:
  assumes "dup_pages envid pns s = Inr (u, s')"
    and "ENVX (sys_getenvid s) = curenv s"
    and "\<forall>pn\<in>set pns. pn < 2 ^ 20"
  shows "(\<forall>q. dup_entry (uvpt s' q) = dup_entry (uvpt s q)) \<and>
     (\<forall>pn\<in>set pns. pgdir_walk (envs s' (ENVX envid)) pn = dup_entry (uvpt s pn)) \<and>
     (\<forall>y q. q \<notin> set pns \<longrightarrow> pgdir_walk (envs s' y) q = pgdir_walk (envs s y) q) \<and>
     (\<forall>q. pgdir_walk (envs s (ENVX envid)) q = dup_entry (uvpt s q) \<longrightarrow>
          pgdir_walk (envs s' (ENVX envid)) q = dup_entry (uvpt s q))"
  using assms
proof (induction pns arbitrary: s)
  case Nil
  then show ?case by simp
next
  case (Cons pn pns)
  from Cons.prems(1) obtain r s1 where
    d: "duppage envid pn s = Inr (r, s1)" and rest: "dup_pages envid pns s1 = Inr (u, s')"
    by (auto split: sum.splits)
  from Cons.prems(3) have pn: "pn < 2 ^ 20" and small: "\<forall>pn\<in>set pns. pn < 2 ^ 20" by simp_all
  note k = duppage_child[OF d Cons.prems(2) pn]
  have self1: "ENVX (sys_getenvid s1) = curenv s1" using Cons.prems(2) k(1,2) by simp
  note ih = Cons.IH[OF rest self1 small]
  have inv: "dup_entry (uvpt s' q) = dup_entry (uvpt s q)" for q
    using ih k(3) by simp
  have keep: "pgdir_walk (envs s' (ENVX envid)) q = dup_entry (uvpt s q)"
    if a: "pgdir_walk (envs s1 (ENVX envid)) q = dup_entry (uvpt s q)" for q
  proof -
    from a have "pgdir_walk (envs s1 (ENVX envid)) q = dup_entry (uvpt s1 q)" by (simp add: k(3))
    with ih have "pgdir_walk (envs s' (ENVX envid)) q = dup_entry (uvpt s1 q)" by blast
    then show ?thesis by (simp add: k(3))
  qed
  have here: "pgdir_walk (envs s' (ENVX envid)) pn = dup_entry (uvpt s pn)"
    using k(4) by (rule keep)
  have c2: "pgdir_walk (envs s' (ENVX envid)) q = dup_entry (uvpt s q)" if "q \<in> set pns" for q
  proof -
    from ih that have "pgdir_walk (envs s' (ENVX envid)) q = dup_entry (uvpt s1 q)" by blast
    then show ?thesis by (simp add: k(3))
  qed
  have c3: "pgdir_walk (envs s' y) q = pgdir_walk (envs s y) q" if "q \<noteq> pn" "q \<notin> set pns" for y q
  proof -
    from ih that(2) have "pgdir_walk (envs s' y) q = pgdir_walk (envs s1 y) q" by blast
    with k(5)[OF that(1)] show ?thesis by simp
  qed
  have c4: "pgdir_walk (envs s' (ENVX envid)) q = dup_entry (uvpt s q)"
    if a: "pgdir_walk (envs s (ENVX envid)) q = dup_entry (uvpt s q)" for q
  proof (cases "q = pn")
    case True
    with here show ?thesis by simp
  next
    case False
    from k(5)[OF False] a have "pgdir_walk (envs s1 (ENVX envid)) q = dup_entry (uvpt s q)"
      by simp
    then show ?thesis by (rule keep)
  qed
  show ?case using inv here c2 c3 c4 by auto
qed

lemma sys_env_set_status_keeps:
  assumes "sys_env_set_status envid st s = (r, s')"
  shows "pgdir_walk (envs s' x) q = pgdir_walk (envs s x) q"
    and "env_pgfault_upcall (envs s' x) = env_pgfault_upcall (envs s x)"
    and "page_free_list s' = page_free_list s"
  using assms
  by (auto simp add: sys_env_set_status_def sysret_def pgdir_walk_def
        split: option.splits if_splits)

text \<open>
  A run of the parent branch that has called \<open>sys_env_set_status\<close> has gone through all
  of the steps before it.
\<close>

lemma fork_resume_runnable_call:
  assumes pos: "0 < envid"
    and call: "(runnable_call envid, r) \<in> set (calls_since s (final (fork_resume envid s)))"
  obtains s1 s2 s3 where
    "fork_pde_loop envid 0 s = Inr ((), s1)"
    "sys_page_alloc envid (UXSTACKTOP - PGSIZE) (PTE_P OR PTE_W OR PTE_U) s1 = (0, s2)"
    "sys_env_set_pgfault_upcall envid
       (env_pgfault_upcall (envs s2 (u_thisenv (envs s2 (curenv s2))))) s2 = (0, s3)"
    "sys_env_set_status envid ENV_RUNNABLE s3 = (r, final (fork_resume envid s))"
proof -
  define S where "S = runnable_call envid"
  have parent: "\<not> envid < 0" "envid \<noteq> 0" using pos by simp_all
  have nm: "\<not> is_page_map S" by (simp add: S_def runnable_call_def)
  have ws: "walk_step s (final (fork_pde_loop envid 0 s))" by (rule fork_pde_loop_walk_step)
  define walk where "walk = calls_since s (final (fork_pde_loop envid 0 s))"
  have wl: "syslog (final (fork_pde_loop envid 0 s)) = syslog s @ walk"
    unfolding walk_def using ws by (rule walk_step_log)
  have "list_all (\<lambda>ev. is_page_map (fst ev)) walk"
    unfolding walk_def using ws by (rule walk_step_page_maps)
  with nm have notin: "(S, r') \<notin> set walk" for r'
    by (auto simp add: list_all_iff)
  note call' = call[folded S_def]
  show ?thesis
  proof (cases "fork_pde_loop envid 0 s")
    case (Inl e)
    then have "fork_resume envid s = Inl e" using parent by (simp add: fork_resume_def)
    then have "calls_since s (final (fork_resume envid s)) = walk"
      by (simp add: walk_def Inl final_Inl)
    with call' notin show ?thesis by simp
  next
    case (Inr b)
    obtain u s1 where b: "b = (u, s1)" by (cases b)
    have w: "fork_pde_loop envid 0 s = Inr ((), s1)" by (simp add: Inr b)
    have wl1: "syslog s1 = syslog s @ walk" using wl by (simp add: w)
    obtain r2 s2 where
      a: "sys_page_alloc envid (UXSTACKTOP - PGSIZE) (PTE_P OR PTE_W OR PTE_U) s1 = (r2, s2)"
      by (cases "sys_page_alloc envid (UXSTACKTOP - PGSIZE) (PTE_P OR PTE_W OR PTE_U) s1")
    note a1 = sys_page_alloc_any[OF a]
    have l2: "syslog s2 = syslog s @ walk @
        [(SYS_page_alloc envid (UXSTACKTOP - PGSIZE) (PTE_P OR PTE_W OR PTE_U), r2)]"
      using a1(1) wl1 by simp
    show ?thesis
    proof (cases "r2 < 0")
      case True
      then have "final (fork_resume envid s) = s2"
        using parent w a by (simp add: fork_resume_def)
      with call' notin calls_since_eq[OF l2] show ?thesis
        by (auto simp add: S_def runnable_call_def)
    next
      case False
      with a1(2) have r2: "r2 = 0" by simp
      obtain r3 s3 where up: "sys_env_set_pgfault_upcall envid
          (env_pgfault_upcall (envs s2 (u_thisenv (envs s2 (curenv s2))))) s2 = (r3, s3)"
        by (cases "sys_env_set_pgfault_upcall envid
          (env_pgfault_upcall (envs s2 (u_thisenv (envs s2 (curenv s2))))) s2")
      note u1 = sys_env_set_pgfault_upcall_any[OF up]
      have l3: "syslog s3 = syslog s @ walk @
        [(SYS_page_alloc envid (UXSTACKTOP - PGSIZE) (PTE_P OR PTE_W OR PTE_U), 0),
         (SYS_env_set_pgfault_upcall envid
            (env_pgfault_upcall (envs s2 (u_thisenv (envs s2 (curenv s2))))), r3)]"
        using u1(1) l2 r2 by simp
      show ?thesis
      proof (cases "r3 < 0")
        case True
        then have "final (fork_resume envid s) = s3"
          using parent w a r2 up by (simp add: fork_resume_def)
        with call' notin calls_since_eq[OF l3] show ?thesis
          by (auto simp add: S_def runnable_call_def)
      next
        case False
        with u1(2) have r3: "r3 = 0" by simp
        obtain r4 s4 where st: "sys_env_set_status envid ENV_RUNNABLE s3 = (r4, s4)"
          by (cases "sys_env_set_status envid ENV_RUNNABLE s3")
        note t1 = sys_env_set_status_any[OF st]
        have l4: "syslog s4 = syslog s @ walk @
          [(SYS_page_alloc envid (UXSTACKTOP - PGSIZE) (PTE_P OR PTE_W OR PTE_U), 0),
           (SYS_env_set_pgfault_upcall envid
              (env_pgfault_upcall (envs s2 (u_thisenv (envs s2 (curenv s2))))), 0),
           (S, r4)]"
          using t1(1) l3 r3 by (simp add: S_def runnable_call_def)
        have fin: "final (fork_resume envid s) = s4"
          using parent w a r2 up r3 st by (simp add: fork_resume_def)
        from call' notin calls_since_eq[OF l4] have "r = r4"
          by (auto simp add: fin S_def runnable_call_def)
        with that[OF w a[unfolded r2] up[unfolded r3]] st fin show ?thesis by simp
      qed
    qed
  qed
qed

lemma fork_pages_not_stack: "PGNUM (UXSTACKTOP - PGSIZE) \<notin> set (fork_pages s)"
  by (simp add: fork_pages_flat)

lemma fork_resume_child_complete:
  assumes pos: "0 < envid"
    and call: "(runnable_call envid, r) \<in> set (calls_since s (final (fork_resume envid s)))"
    and self: "ENVX (sys_getenvid s) = curenv s"
  shows "child_complete s envid (final (fork_resume envid s))"
proof -
  define c where "c = ENVX envid"
  define sp where "sp = PGNUM (UXSTACKTOP - PGSIZE)"
  define fin where "fin = final (fork_resume envid s)"
  from pos call obtain s1 s2 s3 where
    w: "fork_pde_loop envid 0 s = Inr ((), s1)"
    and a: "sys_page_alloc envid (UXSTACKTOP - PGSIZE) (PTE_P OR PTE_W OR PTE_U) s1 = (0, s2)"
    and up: "sys_env_set_pgfault_upcall envid
       (env_pgfault_upcall (envs s2 (u_thisenv (envs s2 (curenv s2))))) s2 = (0, s3)"
    and st: "sys_env_set_status envid ENV_RUNNABLE s3 = (r, fin)"
    unfolding fin_def by (rule fork_resume_runnable_call)
  from w have d: "dup_pages envid (fork_pages s) s = Inr ((), s1)"
    by (simp add: fork_pde_loop_pages)
  have small: "\<forall>pn\<in>set (fork_pages s). pn < 2 ^ 20" using fork_pages_small by blast
  note k = dup_pages_child[OF d self small, folded c_def]
  from fork_pde_loop_walk_step[of s envid] have ws: "walk_step s s1" by (simp add: w)
  from a obtain f fs where
    fl: "page_free_list s1 = f # fs"
    and e2: "envs s2 = (envs s1)(c := page_insert (envs s1 c) sp
               (mk_pte f (PTE_P OR PTE_W OR PTE_U)))"
    and c2: "curenv s2 = curenv s1"
    unfolding c_def sp_def by (rule sys_page_alloc_ok) simp_all
  have w2: "pgdir_walk (envs s2 y) q =
      (if y = c \<and> q = sp then mk_pte f (PTE_P OR PTE_W OR PTE_U) else pgdir_walk (envs s1 y) q)"
    for y q
    using e2 by (rule pgdir_walk_envs_upd)
  from up have
    e3: "envs s3 = (envs s2)(c := (envs s2 c)\<lparr>env_pgfault_upcall :=
            env_pgfault_upcall (envs s2 (u_thisenv (envs s2 (curenv s2))))\<rparr>)"
    unfolding c_def by (auto elim: sys_env_set_pgfault_upcall_ok)
  have w3: "pgdir_walk (envs s3 y) q = pgdir_walk (envs s2 y) q" for y q
    by (simp add: e3 pgdir_walk_def)
  note t = sys_env_set_status_keeps[OF st]
  have wf: "pgdir_walk (envs fin y) q =
      (if y = c \<and> q = sp then mk_pte f (PTE_P OR PTE_W OR PTE_U) else pgdir_walk (envs s1 y) q)"
    for y q
    by (simp add: t(1) w3 w2)
  have upc: "env_pgfault_upcall (envs s2 (u_thisenv (envs s2 (curenv s2)))) =
             env_pgfault_upcall (envs s (u_thisenv (envs s (curenv s))))"
    using ws by (simp add: e2 c2 walk_step_def)
  have ns: "sp \<notin> set (fork_pages s)" unfolding sp_def by (rule fork_pages_not_stack)
  have 1: "list_all (\<lambda>pn. pgdir_walk (envs fin c) pn = dup_entry (uvpt s pn)) (fork_pages s)"
    using k ns by (auto simp add: list_all_iff wf)
  have 2: "\<forall>q. q \<notin> set (fork_pages s) \<and> q \<noteq> sp \<longrightarrow>
          pgdir_walk (envs fin c) q = pgdir_walk (envs s c) q"
    using k by (simp add: wf)
  have 3: "page_free_list s = f # fs" using ws fl by (simp add: walk_step_def)
  have 4: "pgdir_walk (envs fin c) sp = mk_pte f (PTE_P OR PTE_W OR PTE_U)"
    by (simp add: wf)
  have 5: "env_pgfault_upcall (envs fin c) =
       env_pgfault_upcall (envs s (u_thisenv (envs s (curenv s))))"
    by (simp add: t(2) e3 upc)
  show ?thesis
    unfolding child_complete_def fin_def[symmetric] c_def[symmetric] sp_def[symmetric]
    using 1 2 3 4 5 by simp
qed

lemma list_all_butlast: "list_all P xs \<Longrightarrow> list_all P (butlast xs)"
  by (auto simp add: list_all_iff dest: in_set_butlastD)

lemma panics_at_refusal_butlast:
  assumes "panics_at_refusal s res"
  shows "list_all (\<lambda>ev. 0 \<le> snd ev) (butlast (calls_since s (final res)))"
proof (cases res)
  case (Inr b)
  obtain v s' where b: "b = (v, s')" by (cases b)
  from assms show ?thesis by (simp add: panics_at_refusal_def Inr b list_all_butlast)
next
  case (Inl b)
  obtain e s' where b: "b = (e, s')" by (cases b)
  from assms show ?thesis by (simp add: panics_at_refusal_def Inl b)
qed

lemma fork_resume_other_status:
  assumes run: "fork_resume envid s = Inr (r, s')" and parent: "envid \<noteq> 0"
    and x: "x \<noteq> ENVX envid"
  shows "env_status (envs s' x) = env_status (envs s x)"
proof -
  from run parent obtain s1 r2 s2 r3 s3 r4 where
    w: "fork_pde_loop envid 0 s = Inr ((), s1)"
    and a: "sys_page_alloc envid (UXSTACKTOP - PGSIZE) (PTE_P OR PTE_W OR PTE_U) s1 = (r2, s2)"
    and up: "sys_env_set_pgfault_upcall envid
       (env_pgfault_upcall (envs s2 (u_thisenv (envs s2 (curenv s2))))) s2 = (r3, s3)"
    and st: "sys_env_set_status envid ENV_RUNNABLE s3 = (r4, s')" "\<not> r4 < 0"
    by (rule fork_resume_parent_Inr)
  from fork_pde_loop_walk_step[of s envid] have "walk_step s s1" by (simp add: w)
  then have 1: "env_status (envs s1 x) = env_status (envs s x)" by (simp add: walk_step_def)
  note 2 = sys_page_alloc_any(4)[OF a, of x]
  note 3 = sys_env_set_pgfault_upcall_any(4)[OF up, of x]
  from st have "envs s' = (envs s3)(ENVX envid := (envs s3 (ENVX envid))\<lparr>env_status := ENV_RUNNABLE\<rparr>)"
    by (auto elim: sys_env_set_status_ok)
  with x have "env_status (envs s' x) = env_status (envs s3 x)" by simp
  with 1 2 3 show ?thesis by simp
qed

text \<open>
  C8.  In every run of the parent branch of \<open>fork\<close>, returning or not, the calls made
  are those of the duplication walk, all of them \<open>sys_page_map\<close>, followed by a prefix of:
  the allocation of the child's exception stack with \<open>PTE_P | PTE_W | PTE_U\<close>, the
  installation of its upcall, the transition to \<open>ENV_RUNNABLE\<close>; and each of these is
  called only after the one before has returned zero.  So the child is made runnable
  only by the last call of a run, strictly after its exception stack was allocated and
  its upcall installed; the run returns exactly when all three have returned zero; and
  in a run that panics no environment has changed its status.  A run that returns
  leaves the child runnable with the parent's upcall and with its exception-stack page
  mapped \<open>PTE_P | PTE_W | PTE_U\<close> onto the frame that headed the free list.

  The run stops at the first call that is refused.  Hence, whenever the transition to
  \<open>ENV_RUNNABLE\<close> is called at all, the walk has returned, no call before the transition
  was refused, and the child's address space is whole (the parent being the entry of
  \<open>envs\<close> its identifier names): every page of the walk is mapped in the child onto the
  parent's frame, the exception stack is mapped onto a frame of its own, and the upcall
  is installed.  No environment changes its status but the child, and the child only
  through that call returning zero: the child never runs with a partial address space.
\<close>

theorem fork_child_runnable_last:
  assumes "0 < envid"
  shows "(\<exists>walk rest.
      syslog (final (fork_resume envid s)) = syslog s @ walk @ rest \<and>
      list_all (\<lambda>ev. is_page_map (fst ev)) walk \<and>
      (rest = [] \<or>
       (\<exists>r. r < 0 \<and> rest = [(stack_alloc_call envid, r)]) \<or>
       (\<exists>r. r < 0 \<and> rest = [(stack_alloc_call envid, 0), (upcall_call envid s, r)]) \<or>
       (\<exists>r. rest = [(stack_alloc_call envid, 0), (upcall_call envid s, 0),
                     (runnable_call envid, r)])) \<and>
      (\<forall>r. (runnable_call envid, r) \<in> set (walk @ rest) \<longrightarrow>
         rest = [(stack_alloc_call envid, 0), (upcall_call envid s, 0),
                 (runnable_call envid, r)]) \<and>
      ((\<exists>s'. fork_resume envid s = Inr (envid, s')) \<longleftrightarrow>
         rest = [(stack_alloc_call envid, 0), (upcall_call envid s, 0),
                 (runnable_call envid, 0)]) \<and>
      ((\<exists>e s'. fork_resume envid s = Inl (e, s')) \<longrightarrow>
         (\<forall>x. env_status (envs (final (fork_resume envid s)) x) = env_status (envs s x)))) \<and>
     (\<forall>s'. fork_resume envid s = Inr (envid, s') \<longrightarrow>
        env_status (envs s' (ENVX envid)) = ENV_RUNNABLE \<and>
        env_pgfault_upcall (envs s' (ENVX envid)) =
          env_pgfault_upcall (envs s (u_thisenv (envs s (curenv s)))) \<and>
        (\<exists>f. page_free_list s = f # page_free_list s' \<and>
             pgdir_walk (envs s' (ENVX envid)) (PGNUM (UXSTACKTOP - PGSIZE)) =
               mk_pte f (PTE_P OR PTE_W OR PTE_U))) \<and>
     panics_at_refusal s (fork_resume envid s) \<and>
     (\<forall>r. (runnable_call envid, r) \<in> set (calls_since s (final (fork_resume envid s))) \<longrightarrow>
        (\<exists>s1. fork_pde_loop envid 0 s = Inr ((), s1)) \<and>
        list_all (\<lambda>ev. 0 \<le> snd ev) (butlast (calls_since s (final (fork_resume envid s)))) \<and>
        (ENVX (sys_getenvid s) = curenv s \<longrightarrow>
           child_complete s envid (final (fork_resume envid s)))) \<and>
     (\<forall>x. env_status (envs (final (fork_resume envid s)) x) \<noteq> env_status (envs s x) \<longrightarrow>
        x = ENVX envid \<and>
        (runnable_call envid, 0) \<in> set (calls_since s (final (fork_resume envid s))))"
proof -
  define fin where "fin = final (fork_resume envid s)"
  have ne: "envid \<noteq> 0" and nn: "0 \<le> envid" using assms by simp_all
  note calls = fork_resume_calls[OF assms, of s]
  have 1: "\<exists>walk rest.
      syslog (final (fork_resume envid s)) = syslog s @ walk @ rest \<and>
      list_all (\<lambda>ev. is_page_map (fst ev)) walk \<and>
      (rest = [] \<or>
       (\<exists>r. r < 0 \<and> rest = [(stack_alloc_call envid, r)]) \<or>
       (\<exists>r. r < 0 \<and> rest = [(stack_alloc_call envid, 0), (upcall_call envid s, r)]) \<or>
       (\<exists>r. rest = [(stack_alloc_call envid, 0), (upcall_call envid s, 0),
                     (runnable_call envid, r)])) \<and>
      (\<forall>r. (runnable_call envid, r) \<in> set (walk @ rest) \<longrightarrow>
         rest = [(stack_alloc_call envid, 0), (upcall_call envid s, 0),
                 (runnable_call envid, r)]) \<and>
      ((\<exists>s'. fork_resume envid s = Inr (envid, s')) \<longleftrightarrow>
         rest = [(stack_alloc_call envid, 0), (upcall_call envid s, 0),
                 (runnable_call envid, 0)]) \<and>
      ((\<exists>e s'. fork_resume envid s = Inl (e, s')) \<longrightarrow>
         (\<forall>x. env_status (envs (final (fork_resume envid s)) x) = env_status (envs s x)))"
    by (rule calls)
  have 2: "\<forall>s'. fork_resume envid s = Inr (envid, s') \<longrightarrow>
        env_status (envs s' (ENVX envid)) = ENV_RUNNABLE \<and>
        env_pgfault_upcall (envs s' (ENVX envid)) =
          env_pgfault_upcall (envs s (u_thisenv (envs s (curenv s)))) \<and>
        (\<exists>f. page_free_list s = f # page_free_list s' \<and>
             pgdir_walk (envs s' (ENVX envid)) (PGNUM (UXSTACKTOP - PGSIZE)) =
               mk_pte f (PTE_P OR PTE_W OR PTE_U))"
    using fork_resume_child[OF _ ne] by blast
  have 3: "panics_at_refusal s (fork_resume envid s)"
    using nn by (rule fork_resume_panics_at_refusal)
  have 4: "(\<exists>s1. fork_pde_loop envid 0 s = Inr ((), s1)) \<and>
        list_all (\<lambda>ev. 0 \<le> snd ev) (butlast (calls_since s fin)) \<and>
        (ENVX (sys_getenvid s) = curenv s \<longrightarrow> child_complete s envid fin)"
    if call: "(runnable_call envid, r) \<in> set (calls_since s fin)" for r
  proof (intro conjI impI)
    from assms call[unfolded fin_def] show "\<exists>s1. fork_pde_loop envid 0 s = Inr ((), s1)"
      by (rule fork_resume_runnable_call) blast
    from 3 show "list_all (\<lambda>ev. 0 \<le> snd ev) (butlast (calls_since s fin))"
      unfolding fin_def by (rule panics_at_refusal_butlast)
    assume "ENVX (sys_getenvid s) = curenv s"
    with assms call[unfolded fin_def] show "child_complete s envid fin"
      unfolding fin_def by (rule fork_resume_child_complete)
  qed
  have 5: "x = ENVX envid \<and> (runnable_call envid, 0) \<in> set (calls_since s fin)"
    if ch: "env_status (envs fin x) \<noteq> env_status (envs s x)" for x
  proof -
    from calls obtain walk rest where
      l: "syslog fin = syslog s @ walk @ rest"
      and iff: "(\<exists>s'. fork_resume envid s = Inr (envid, s')) \<longleftrightarrow>
         rest = [(stack_alloc_call envid, 0), (upcall_call envid s, 0),
                 (runnable_call envid, 0)]"
      and pan: "(\<exists>e s'. fork_resume envid s = Inl (e, s')) \<longrightarrow>
         (\<forall>x. env_status (envs fin x) = env_status (envs s x))"
      unfolding fin_def by blast
    from pan ch have nl: "\<nexists>e s'. fork_resume envid s = Inl (e, s')" by blast
    then obtain v s' where run: "fork_resume envid s = Inr (v, s')"
      by (cases "fork_resume envid s") auto
    from fork_resume_child[OF run ne] have v: "v = envid" by simp
    have f: "fin = s'" by (simp add: fin_def run)
    from fork_resume_other_status[OF run ne, of x] ch have x: "x = ENVX envid"
      unfolding f by blast
    from iff run v have "rest = [(stack_alloc_call envid, 0), (upcall_call envid s, 0),
                 (runnable_call envid, 0)]" by blast
    with calls_since_eq[OF l] have "(runnable_call envid, 0) \<in> set (calls_since s fin)"
      by simp
    with x show ?thesis by simp
  qed
  from 1 2 3 4 5 show ?thesis unfolding fin_def by blast
qed

lemma dup_entry_demo:
  "dup_entry 0x3005 = mk_pte 3 (PTE_P OR PTE_U)"
  "dup_entry 0x4007 = mk_pte 4 (PTE_P OR PTE_U OR PTE_COW)"
  "dup_entry 0x5805 = mk_pte 5 (PTE_P OR PTE_U OR PTE_COW)"
  by (simp_all add: dup_entry_def PTE_ADDR_def cdefs)

text \<open>
  On the concrete machine the parent branch returns, and the log it leaves ends with the
  three calls, each returning zero, after the calls of the walk.  The child, not runnable
  before, is runnable after, with the parent's three pages mapped (the writable one and
  the copy-on-write one copy-on-write, the read-only one read-only), its exception stack
  on frame 7 and the parent's upcall.
\<close>

theorem fork_child_runnable_last_witness:
  "\<exists>s' walk. fork_resume 0x1001 demo_forked = Inr (0x1001, s') \<and>
      syslog s' = syslog demo_forked @ walk @
        [(stack_alloc_call 0x1001, 0), (upcall_call 0x1001 demo_forked, 0),
         (runnable_call 0x1001, 0)] \<and>
      list_all (\<lambda>ev. is_page_map (fst ev)) walk \<and>
      list_all (\<lambda>ev. 0 \<le> snd ev) walk \<and>
      env_status (envs demo_forked 1) = ENV_NOT_RUNNABLE \<and>
      env_status (envs s' 1) = ENV_RUNNABLE \<and>
      child_complete demo_forked 0x1001 s' \<and>
      pgdir_walk (envs demo_forked 1) 0x801 = 0 \<and>
      pgdir_walk (envs s' 1) 0x800 = mk_pte 3 (PTE_P OR PTE_U) \<and>
      pgdir_walk (envs s' 1) 0x801 = mk_pte 4 (PTE_P OR PTE_U OR PTE_COW) \<and>
      pgdir_walk (envs s' 1) 0x802 = mk_pte 5 (PTE_P OR PTE_U OR PTE_COW) \<and>
      pgdir_walk (envs s' 1) (PGNUM (UXSTACKTOP - PGSIZE)) = mk_pte 7 (PTE_P OR PTE_W OR PTE_U) \<and>
      env_pgfault_upcall (envs s' 1) = 0x800100"
proof -
  from fork_resume_demo_runs obtain s' where
    run: "fork_resume 0x1001 demo_forked = Inr (0x1001, s')" ..
  have fin: "final (fork_resume 0x1001 demo_forked) = s'" by (simp add: run)
  have pos: "(0::int) < 0x1001" by simp
  note concl = fork_child_runnable_last[OF pos, of demo_forked, unfolded fin]
  from concl run have r: "env_status (envs s' (ENVX 0x1001)) = ENV_RUNNABLE" by blast
  have b: "env_status (envs demo_forked 1) = ENV_NOT_RUNNABLE" by (simp add: demos2)
  from concl obtain walk rest where
    l: "syslog s' = syslog demo_forked @ walk @ rest"
    and m: "list_all (\<lambda>ev. is_page_map (fst ev)) walk"
    and iff: "(\<exists>s'. fork_resume 0x1001 demo_forked = Inr (0x1001, s')) \<longleftrightarrow>
         rest = [(stack_alloc_call 0x1001, 0), (upcall_call 0x1001 demo_forked, 0),
                 (runnable_call 0x1001, 0)]"
    by blast
  from iff run have rest:
    "rest = [(stack_alloc_call 0x1001, 0), (upcall_call 0x1001 demo_forked, 0),
             (runnable_call 0x1001, 0)]" by blast
  have cs: "calls_since demo_forked s' = walk @ rest" using l by (rule calls_since_eq)
  have call: "(runnable_call 0x1001, 0) \<in> set (calls_since demo_forked s')"
    by (simp add: cs rest)
  from concl call demo_forked_self
  have pre: "list_all (\<lambda>ev. 0 \<le> snd ev) (butlast (calls_since demo_forked s'))"
    and cc: "child_complete demo_forked 0x1001 s'"
    by blast+
  from pre have wz: "list_all (\<lambda>ev. 0 \<le> snd ev) walk"
    by (simp add: cs rest butlast_append)
  have c0: "pgdir_walk (envs demo_forked 1) 0x801 = 0"
    by (simp add: pgdir_walk_def demos2)
  have up: "env_pgfault_upcall (envs demo_forked (u_thisenv (envs demo_forked (curenv demo_forked))))
      = 0x800100"
    by (simp add: demos2)
  have fl: "page_free_list demo_forked = [7, 8, 9]" by (simp add: demos2)
  from cc have pages:
    "pgdir_walk (envs s' 1) 0x800 = mk_pte 3 (PTE_P OR PTE_U) \<and>
     pgdir_walk (envs s' 1) 0x801 = mk_pte 4 (PTE_P OR PTE_U OR PTE_COW) \<and>
     pgdir_walk (envs s' 1) 0x802 = mk_pte 5 (PTE_P OR PTE_U OR PTE_COW) \<and>
     pgdir_walk (envs s' 1) (PGNUM (UXSTACKTOP - PGSIZE)) = mk_pte 7 (PTE_P OR PTE_W OR PTE_U) \<and>
     env_pgfault_upcall (envs s' 1) = 0x800100"
    unfolding child_complete_def fork_pages_demo_forked up fl demo_forked_ids(3)
    by (simp add: uvpt_demo_forked uvpt_demo_state dup_entry_demo)
  from run l[unfolded rest] m wz b r cc c0 pages show ?thesis
    by (auto simp add: demo_forked_ids)
qed

section \<open>What fork returns\<close>

lemma new_envid_pos: "0 < new_envid old i"
proof (cases "(old + 4096) div 1024 * 1024 \<le> 0")
  case True
  have "0 < 4096 + uint i" by (simp add: add_pos_nonneg)
  with True show ?thesis by (simp only: new_envid_def Let_def if_True)
next
  case False
  then have "0 < (old + 4096) div 1024 * 1024" by simp
  then have "0 < (old + 4096) div 1024 * 1024 + uint i" by (simp add: add_pos_nonneg)
  with False show ?thesis by (simp only: new_envid_def Let_def if_False)
qed

lemma sys_exofork_ret:
  assumes "sys_exofork s = (r, s')"
  shows "r < 0 \<or> 0 < r"
  using assms new_envid_pos
  by (auto simp add: sys_exofork_def sysret_def Let_def E_NO_FREE_ENV_def split: list.splits)

lemma fork_InrE:
  assumes "fork s = Inr (r, s')"
  obtains s1 envid s2 where "set_pgfault_handler Handler_pgfault s = Inr ((), s1)"
    "sys_exofork s1 = (envid, s2)" "fork_resume envid s2 = Inr (r, s')"
  using assms by (auto simp add: fork_def Let_def split: sum.splits prod.splits)

lemma panics_at_refusal_lists:
  assumes "panics_at_refusal s res"
  shows "list_ex (\<lambda>ev. snd ev < 0) (calls_since s (final res)) =
           (\<exists>msg s'. res = Inl (Panic msg, s'))"
    and "list_all (\<lambda>ev. 0 \<le> snd ev) (calls_since s (final res)) = (\<exists>v s'. res = Inr (v, s'))"
  using panics_at_refusal_iff[OF assms] by (simp_all add: list_ex_iff list_all_iff)

lemma sys_page_alloc_no_frame:
  assumes "sys_page_alloc envid va perm s = (r, s')" and "page_free_list s = []"
  shows "r < 0"
  using assms
  by (auto simp add: sys_page_alloc_def sysret_def E_BAD_ENV_def E_INVAL_def E_NO_MEM_def
        split: option.splits if_splits)

lemma fork_resume_no_frame:
  assumes pos: "0 < envid"
    and self: "envid2env s (sys_getenvid s) = Some (curenv s)"
    and child: "envid2env s envid = Some c"
    and free: "page_free_list s = []"
  shows "\<exists>s'. fork_resume envid s =
           Inl (Panic ''fork: Cannot allocate child exception stack'', s')"
proof -
  have "\<exists>s1. dup_pages envid (fork_pages s) s = Inr ((), s1)"
    using self child by (rule dup_pages_succeeds) (use fork_pages_small in blast)
  then obtain s1 where w: "fork_pde_loop envid 0 s = Inr ((), s1)"
    by (auto simp add: fork_pde_loop_pages)
  from fork_pde_loop_walk_step[of s envid] have ws: "walk_step s s1" by (simp add: w)
  have f1: "page_free_list s1 = []" using free ws by (simp add: walk_step_def)
  obtain r2 s2 where
    a: "sys_page_alloc envid (UXSTACKTOP - PGSIZE) (PTE_P OR PTE_W OR PTE_U) s1 = (r2, s2)"
    by (cases "sys_page_alloc envid (UXSTACKTOP - PGSIZE) (PTE_P OR PTE_W OR PTE_U) s1")
  from sys_page_alloc_no_frame[OF a f1] have "r2 < 0" .
  with pos w a have "fork_resume envid s =
      Inl (Panic ''fork: Cannot allocate child exception stack'', s2)"
    by (simp add: fork_resume_def panic_def)
  then show ?thesis ..
qed

lemma fork_demo_noframes:
  "\<exists>s'. fork demo_noframes = Inl (Panic ''fork: Cannot allocate child exception stack'', s')"
proof -
  have h: "set_pgfault_handler Handler_pgfault demo_noframes = Inr ((), demo_noframes)"
    by (simp add: set_pgfault_handler_def Let_def demo_noframes_def demos)
  have x: "sys_exofork demo_noframes = (0x1001, demo_noframes_forked)"
    by (simp add: sys_exofork_def sysret_def new_envid_def demo_noframes_def
          demo_noframes_forked_def demos2)
  have f: "fork demo_noframes = fork_resume 0x1001 demo_noframes_forked"
    by (simp add: fork_def h x)
  have "\<exists>s'. fork_resume 0x1001 demo_noframes_forked =
           Inl (Panic ''fork: Cannot allocate child exception stack'', s')"
  proof (rule fork_resume_no_frame)
    show "(0::int) < 0x1001" by simp
    show "envid2env demo_noframes_forked (sys_getenvid demo_noframes_forked) =
        Some (curenv demo_noframes_forked)"
      using demo_forked_ids(1)
      by (simp add: demo_noframes_forked_def envid2env_def sys_getenvid_def)
    show "envid2env demo_noframes_forked 0x1001 = Some 1"
      using demo_forked_ids(2) by (simp add: demo_noframes_forked_def envid2env_def)
    show "page_free_list demo_noframes_forked = []"
      by (simp add: demo_noframes_forked_def)
  qed
  then show ?thesis by (simp add: f)
qed

text \<open>
  C6, as the code has it.  \<open>fork\<close> returns to the parent the identifier that
  \<open>sys_exofork\<close> gave the child, a positive value naming an entry of \<open>envs\<close> that is
  runnable by then; resumed in the child, where \<open>sys_exofork\<close> returns zero, it returns
  zero.  It never returns a negative value: when \<open>sys_exofork\<close> fails, \<open>fork\<close> panics,
  as it does on every later failure.  A run of \<open>fork\<close>, and of its parent branch, stops at
  the first system call that is refused, whichever it is (the allocation or the upcall of
  \<open>set_pgfault_handler\<close>, \<open>sys_exofork\<close>, a \<open>sys_page_map\<close> of the walk, the allocation
  of the child's exception stack, its upcall, its transition to runnable), and ends in a
  panic there; it returns exactly when no call it made was refused, and panics exactly
  when one was.
\<close>

theorem fork_return_value:
  "(\<forall>r s'. fork s = Inr (r, s') \<longrightarrow>
      0 < r \<and> env_id (envs s' (ENVX r)) = r \<and> env_status (envs s' (ENVX r)) = ENV_RUNNABLE \<and>
      (\<exists>s1 s2. set_pgfault_handler Handler_pgfault s = Inr ((), s1) \<and>
         sys_exofork s1 = (r, s2))) \<and>
   (\<forall>r s'. fork_resume envid s = Inr (r, s') \<longrightarrow> r = envid \<and> 0 \<le> r) \<and>
   (\<exists>s'. fork_resume 0 s = Inr (0, s')) \<and>
   (envid < 0 \<longrightarrow>
      fork_resume envid s = Inl (Panic ''fork: Cannot create a child environment'', s)) \<and>
   panics_at_refusal s (fork s) \<and>
   list_ex (\<lambda>ev. snd ev < 0) (calls_since s (final (fork s))) =
     (\<exists>msg s'. fork s = Inl (Panic msg, s')) \<and>
   list_all (\<lambda>ev. 0 \<le> snd ev) (calls_since s (final (fork s))) =
     (\<exists>r s'. fork s = Inr (r, s')) \<and>
   (0 \<le> envid \<longrightarrow>
      panics_at_refusal s (fork_resume envid s) \<and>
      list_ex (\<lambda>ev. snd ev < 0) (calls_since s (final (fork_resume envid s))) =
        (\<exists>msg s'. fork_resume envid s = Inl (Panic msg, s')) \<and>
      list_all (\<lambda>ev. 0 \<le> snd ev) (calls_since s (final (fork_resume envid s))) =
        (\<exists>r s'. fork_resume envid s = Inr (r, s')))"
proof (intro conjI allI impI)
  fix r s'
  assume run: "fork s = Inr (r, s')"
  then obtain s1 envid s2 where
    h: "set_pgfault_handler Handler_pgfault s = Inr ((), s1)"
    and x: "sys_exofork s1 = (envid, s2)"
    and c: "fork_resume envid s2 = Inr (r, s')"
    by (rule fork_InrE)
  have "\<not> envid < 0" using c by (auto simp add: fork_resume_def panic_def)
  with sys_exofork_ret[OF x] have ne: "envid \<noteq> 0" by auto
  note k = fork_resume_child[OF c ne]
  from k show "0 < r" by simp
  from k show "env_id (envs s' (ENVX r)) = r" by simp
  from k show "env_status (envs s' (ENVX r)) = ENV_RUNNABLE" by simp
  from k h x show "\<exists>s1 s2. set_pgfault_handler Handler_pgfault s = Inr ((), s1) \<and>
         sys_exofork s1 = (r, s2)" by auto
next
  fix r s'
  assume c: "fork_resume envid s = Inr (r, s')"
  show "r = envid"
  proof (cases "envid = 0")
    case True
    with c show ?thesis by (simp add: fork_resume_def)
  next
    case False
    from fork_resume_child[OF c False] show ?thesis by simp
  qed
  show "0 \<le> r"
  proof (cases "envid = 0")
    case True
    with c show ?thesis by (simp add: fork_resume_def)
  next
    case False
    from fork_resume_child[OF c False] show ?thesis by simp
  qed
next
  show "\<exists>s'. fork_resume 0 s = Inr (0, s')" by (simp add: fork_resume_def)
next
  assume "envid < 0"
  then show "fork_resume envid s = Inl (Panic ''fork: Cannot create a child environment'', s)"
    by (simp add: fork_resume_def panic_def)
next
  show "panics_at_refusal s (fork s)" by (rule fork_panics_at_refusal)
  show "list_ex (\<lambda>ev. snd ev < 0) (calls_since s (final (fork s))) =
     (\<exists>msg s'. fork s = Inl (Panic msg, s'))"
    by (rule panics_at_refusal_lists(1)[OF fork_panics_at_refusal])
  show "list_all (\<lambda>ev. 0 \<le> snd ev) (calls_since s (final (fork s))) =
     (\<exists>r s'. fork s = Inr (r, s'))"
    by (rule panics_at_refusal_lists(2)[OF fork_panics_at_refusal])
next
  assume nn: "0 \<le> envid"
  then show p: "panics_at_refusal s (fork_resume envid s)"
    by (rule fork_resume_panics_at_refusal)
  show "list_ex (\<lambda>ev. snd ev < 0) (calls_since s (final (fork_resume envid s))) =
        (\<exists>msg s'. fork_resume envid s = Inl (Panic msg, s'))"
    by (rule panics_at_refusal_lists(1)[OF p])
  show "list_all (\<lambda>ev. 0 \<le> snd ev) (calls_since s (final (fork_resume envid s))) =
        (\<exists>r s'. fork_resume envid s = Inr (r, s'))"
    by (rule panics_at_refusal_lists(2)[OF p])
qed

text \<open>
  On the concrete machine \<open>fork\<close> returns \<open>0x1001\<close> to the parent: the identifier of the
  child in slot 1, which is runnable, and no call of the run was refused.  On the same
  machine with no free frame, the allocation of the child's exception stack is refused
  and \<open>fork\<close> panics there.
\<close>

theorem fork_return_value_witness:
  "(\<exists>s'. fork demo_state = Inr (0x1001, s') \<and> env_id (envs s' 1) = 0x1001 \<and>
      env_status (envs s' 1) = ENV_RUNNABLE \<and>
      list_all (\<lambda>ev. 0 \<le> snd ev) (calls_since demo_state s')) \<and>
   (\<exists>s'. fork demo_noframes =
            Inl (Panic ''fork: Cannot allocate child exception stack'', s') \<and>
      list_ex (\<lambda>ev. snd ev < 0) (calls_since demo_noframes s'))"
proof -
  from fork_resume_demo_runs obtain s' where run: "fork demo_state = Inr (0x1001, s')"
    unfolding fork_demo ..
  note t = fork_return_value[of demo_state]
  from t run
  have "env_id (envs s' (ENVX 0x1001)) = 0x1001 \<and>
      env_status (envs s' (ENVX 0x1001)) = ENV_RUNNABLE" by blast
  moreover from t run
  have "list_all (\<lambda>ev. 0 \<le> snd ev) (calls_since demo_state (final (fork demo_state)))"
    by blast
  ultimately have 1: "\<exists>s'. fork demo_state = Inr (0x1001, s') \<and> env_id (envs s' 1) = 0x1001 \<and>
      env_status (envs s' 1) = ENV_RUNNABLE \<and>
      list_all (\<lambda>ev. 0 \<le> snd ev) (calls_since demo_state s')"
    using run by (auto simp add: demo_forked_ids)
  from fork_demo_noframes obtain s2 where
    p: "fork demo_noframes = Inl (Panic ''fork: Cannot allocate child exception stack'', s2)" ..
  from fork_return_value[of demo_noframes] p
  have "list_ex (\<lambda>ev. snd ev < 0) (calls_since demo_noframes (final (fork demo_noframes)))"
    by blast
  with p have 2: "\<exists>s'. fork demo_noframes =
            Inl (Panic ''fork: Cannot allocate child exception stack'', s') \<and>
      list_ex (\<lambda>ev. snd ev < 0) (calls_since demo_noframes s')"
    by auto
  from 1 2 show ?thesis ..
qed

text \<open>
  With no free entry in \<open>envs\<close>, \<open>sys_exofork\<close> fails and \<open>fork\<close> does not return a
  negative value: it panics.
\<close>

theorem fork_failure_panics:
  "fst (sys_exofork demo_full) < 0 \<and>
   fork demo_full = Inl (Panic ''fork: Cannot create a child environment'',
     demo_full\<lparr>syslog := [(SYS_exofork, - E_NO_FREE_ENV)]\<rparr>) \<and>
   (\<forall>r s'. fork demo_full \<noteq> Inr (r, s'))"
proof -
  have h: "set_pgfault_handler Handler_pgfault demo_full = Inr ((), demo_full)"
    by (simp add: set_pgfault_handler_def Let_def demo_full_def demos)
  have x: "sys_exofork demo_full =
      (- E_NO_FREE_ENV, demo_full\<lparr>syslog := [(SYS_exofork, - E_NO_FREE_ENV)]\<rparr>)"
    by (simp add: sys_exofork_def sysret_def demo_full_def)
  have f: "fork demo_full = Inl (Panic ''fork: Cannot create a child environment'',
     demo_full\<lparr>syslog := [(SYS_exofork, - E_NO_FREE_ENV)]\<rparr>)"
    by (simp add: fork_def h x fork_resume_def panic_def E_NO_FREE_ENV_def)
  show ?thesis
    by (simp add: f x E_NO_FREE_ENV_def)
qed

section \<open>The child branch\<close>

text \<open>
  C9.  Resumed in the child, where \<open>sys_exofork\<close> has returned zero, \<open>fork\<close> returns zero
  in a state in which the running environment's \<open>thisenv\<close> is the entry of \<open>envs\<close> that
  \<open>ENVX\<close> of its own identifier indexes: its own entry, when the environment is the
  entry its identifier names.  Nothing else has changed: no system call is logged, and
  all other fields of the running environment, all other environments, physical memory
  and the free lists are as before.
\<close>

theorem fork_child_refreshes_thisenv:
  "\<exists>s'. fork_resume 0 s = Inr (0, s') \<and>
     u_thisenv (envs s' (curenv s')) = ENVX (sys_getenvid s) \<and>
     (ENVX (sys_getenvid s) = curenv s \<longrightarrow>
        u_thisenv (envs s' (curenv s')) = curenv s' \<and>
        env_id (envs s' (u_thisenv (envs s' (curenv s')))) = sys_getenvid s') \<and>
     envs s' (curenv s) = (envs s (curenv s))\<lparr>u_thisenv := ENVX (sys_getenvid s)\<rparr> \<and>
     (\<forall>x. x \<noteq> curenv s \<longrightarrow> envs s' x = envs s x) \<and>
     curenv s' = curenv s \<and> phys s' = phys s \<and> page_free_list s' = page_free_list s \<and>
     env_free_list s' = env_free_list s \<and> syslog s' = syslog s"
  by (simp add: fork_resume_def sys_getenvid_def)

text \<open>
  On the concrete machine the child starts with the parent's \<open>thisenv\<close> (slot 0) and
  leaves \<open>fork\<close> with its own (slot 1).
\<close>

theorem fork_child_refreshes_thisenv_witness:
  "u_thisenv (envs demo_child_runs (curenv demo_child_runs)) = 0 \<and>
   (\<exists>s'. fork_resume 0 demo_child_runs = Inr (0, s') \<and>
      u_thisenv (envs s' (curenv s')) = 1 \<and> curenv s' = 1 \<and>
      env_id (envs s' (u_thisenv (envs s' (curenv s')))) = 0x1001 \<and>
      syslog s' = syslog demo_child_runs)"
proof -
  have a: "u_thisenv (envs demo_child_runs (curenv demo_child_runs)) = 0"
    by (simp add: demo_child_runs_def demos2)
  have b: "ENVX (sys_getenvid demo_child_runs) = curenv demo_child_runs"
    "curenv demo_child_runs = 1" "sys_getenvid demo_child_runs = 0x1001"
    by (simp_all add: demo_child_runs_def demos2 sys_getenvid_def cdefs)
  from fork_child_refreshes_thisenv[of demo_child_runs] obtain s' where
    "fork_resume 0 demo_child_runs = Inr (0, s')"
    "u_thisenv (envs s' (curenv s')) = ENVX (sys_getenvid demo_child_runs)"
    "ENVX (sys_getenvid demo_child_runs) = curenv demo_child_runs \<longrightarrow>
        u_thisenv (envs s' (curenv s')) = curenv s' \<and>
        env_id (envs s' (u_thisenv (envs s' (curenv s')))) = sys_getenvid s'"
    "curenv s' = curenv demo_child_runs" "syslog s' = syslog demo_child_runs"
    by blast
  moreover from this have "sys_getenvid s' = 0x1001"
    by (simp add: sys_getenvid_def b fork_resume_def)
      (auto simp add: demo_child_runs_def demos2 sys_getenvid_def)
  ultimately show ?thesis using a b by auto
qed

end
